theory Spec2Isabelle
  imports Main
begin

section \<open>JavaScript string primitives used by redact.js\<close>

text \<open>
  A JavaScript string is a sequence of UTF-16 code units; it is modelled as a
  \<^typ>\<open>string\<close>, one \<^typ>\<open>char\<close> per code unit, so that \<open>length\<close> is the
  source's \<open>.length\<close>.  An index result of \<open>-1\<close> is \<open>None\<close>.
\<close>

fun startsWith :: "string \<Rightarrow> string \<Rightarrow> bool" where
  "startsWith s [] = True"
| "startsWith [] (p # ps) = False"
| "startsWith (c # cs) (p # ps) = (c = p \<and> startsWith cs ps)"

text \<open>\<open>s.indexOf(pat)\<close>: the least index at which \<open>pat\<close> occurs (0 for the empty pattern).\<close>

fun indexOf :: "string \<Rightarrow> string \<Rightarrow> nat option" where
  "indexOf [] pat = (if pat = [] then Some 0 else None)"
| "indexOf (c # cs) pat =
     (if startsWith (c # cs) pat then Some 0 else map_option Suc (indexOf cs pat))"

definition includes_str :: "string \<Rightarrow> string \<Rightarrow> bool" where
  "includes_str s pat = (indexOf s pat \<noteq> None)"

text \<open>\<open>s.lastIndexOf(pat)\<close>: the greatest index at which \<open>pat\<close> occurs.\<close>

fun lastIndexOf :: "string \<Rightarrow> string \<Rightarrow> nat option" where
  "lastIndexOf [] pat = (if pat = [] then Some 0 else None)"
| "lastIndexOf (c # cs) pat =
     (case lastIndexOf cs pat of
        Some k \<Rightarrow> Some (Suc k)
      | None \<Rightarrow> if startsWith (c # cs) pat then Some 0 else None)"

text \<open>\<open>s.substring(a, b)\<close> swaps its arguments when \<open>a > b\<close> and clamps both to the
  length; \<open>s.substring(a)\<close> is \<open>drop a s\<close>.\<close>

definition substring :: "string \<Rightarrow> nat \<Rightarrow> nat \<Rightarrow> string" where
  "substring s a b = take (max a b - min a b) (drop (min a b) s)"

text \<open>
  \<open>GetSubstitution\<close> for a string pattern (no captures, no named groups): in the
  replacement text \<open>$$\<close> is a dollar sign, \<open>$&\<close> the matched text, \<open>$`\<close> the part of
  the subject before the match and \<open>$'\<close> the part after it; every other character,
  also \<open>$1\<close> and \<open>$<\<close>, stands for itself.
\<close>

fun getSubstitution :: "string \<Rightarrow> string \<Rightarrow> nat \<Rightarrow> string \<Rightarrow> string" where
  "getSubstitution matched str position [] = []"
| "getSubstitution matched str position [c] = [c]"
| "getSubstitution matched str position (c # d # rest) =
     (if c = CHR ''$'' then
        (if d = CHR ''$'' then CHR ''$'' # getSubstitution matched str position rest
         else if d = CHR ''&'' then matched @ getSubstitution matched str position rest
         else if d = CHR 0x60 then take position str @ getSubstitution matched str position rest
         else if d = CHR 0x27 then
           drop (position + length matched) str @ getSubstitution matched str position rest
         else c # getSubstitution matched str position (d # rest))
      else c # getSubstitution matched str position (d # rest))"

text \<open>\<open>s.replace(pat, rep)\<close> with a string pattern: the first occurrence only.\<close>

definition replace_str :: "string \<Rightarrow> string \<Rightarrow> string \<Rightarrow> string" where
  "replace_str s pat rep =
     (case indexOf s pat of
        None \<Rightarrow> s
      | Some p \<Rightarrow> take p s @ getSubstitution pat s p rep @ drop (p + length pat) s)"

lemma indexOf_bound: "indexOf s pat = Some p \<Longrightarrow> p + length pat \<le> length s"
proof (induction s arbitrary: p)
  case Nil
  then show ?case by (simp split: if_splits)
next
  case (Cons c cs)
  have sw: "\<And>s. startsWith s pat \<Longrightarrow> length pat \<le> length s"
  proof -
    fix s show "startsWith s pat \<Longrightarrow> length pat \<le> length s"
      by (induction s pat rule: startsWith.induct) auto
  qed
  show ?case
  proof (cases "startsWith (c # cs) pat")
    case True
    with Cons.prems sw[of "c # cs"] show ?thesis by simp
  next
    case False
    with Cons.prems obtain q where "indexOf cs pat = Some q" "p = Suc q" by auto
    with Cons.IH[of q] show ?thesis by simp
  qed
qed

text \<open>\<open>s.split(sep)\<close>: the pieces between the non-overlapping occurrences of \<open>sep\<close>,
  left to right; with the empty separator, the code units one by one.\<close>

function split :: "string \<Rightarrow> string \<Rightarrow> string list" where
  "split s sep =
     (if sep = [] then map (\<lambda>c. [c]) s
      else case indexOf s sep of
             None \<Rightarrow> [s]
           | Some p \<Rightarrow> take p s # split (drop (p + length sep) s) sep)"
  by pat_completeness auto
termination
proof (relation "measure (\<lambda>(s, sep). length s)")
  show "wf (measure (\<lambda>(s, sep). length s))" by simp
next
  fix s sep :: string and p
  assume "sep \<noteq> []" "indexOf s sep = Some p"
  then have "p + length sep \<le> length s" "0 < length sep"
    using indexOf_bound by auto
  then have "length s - (p + length sep) < length s" by arith
  then show "((drop (p + length sep) s, sep), (s, sep)) \<in> measure (\<lambda>(s, sep). length s)"
    by simp
qed

declare split.simps [simp del]

fun join :: "string list \<Rightarrow> string \<Rightarrow> string" where
  "join [] sep = []"
| "join [x] sep = x"
| "join (x # y # ys) sep = x @ sep @ join (y # ys) sep"

section \<open>The text-leaf pattern\<close>

text \<open>
  \<open>/<w:t[^>]*>([^<]*)<\/w:t>/\<close> tried at the head of \<open>s\<close>.  After the literal
  \<open><w:t\<close> the class \<open>[^>]*\<close> takes the longest run without \<open>>\<close> and the next
  character must be \<open>>\<close>; then \<open>[^<]*\<close> takes the longest run without \<open><\<close> and
  \<open></w:t>\<close> must follow.  A shorter run leaves a character of its own class in
  front of the next literal, so backtracking finds nothing else, and the lazy
  \<open>[^<]*?\<close> of the residual pass matches the same text.  The result is the opening
  tag and the captured content.
\<close>

definition matchLeaf :: "string \<Rightarrow> (string \<times> string) option" where
  "matchLeaf s =
     (if startsWith s ''<w:t'' then
        (let r = drop 4 s;
             attrs = takeWhile (\<lambda>c. c \<noteq> CHR ''>'') r
         in case dropWhile (\<lambda>c. c \<noteq> CHR ''>'') r of
              [] \<Rightarrow> None
            | g # r2 \<Rightarrow>
                (let content = takeWhile (\<lambda>c. c \<noteq> CHR ''<'') r2
                 in if startsWith (dropWhile (\<lambda>c. c \<noteq> CHR ''<'') r2) ''</w:t>''
                    then Some (''<w:t'' @ attrs @ ''>'', content)
                    else None))
      else None)"

record textNode =
  fullMatch :: string
  content :: string
  startIndex :: nat
  endIndex :: nat

record redaction =
  original :: string
  replacement :: string

text \<open>
  The \<open>while ((match = tTagPattern.exec(xmlContent)) !== null)\<close> loop: \<open>s\<close> is the
  subject from \<open>lastIndex = base\<close> on; each round finds the leftmost match at or
  after \<open>lastIndex\<close> and moves \<open>lastIndex\<close> to its end.
\<close>

function scanLeaves :: "nat \<Rightarrow> string \<Rightarrow> textNode list" where
  "scanLeaves base s =
     (if s = [] then []
      else case matchLeaf s of
             Some (openTag, c) \<Rightarrow>
               (let full = openTag @ c @ ''</w:t>''
                in \<lparr>fullMatch = full, content = c, startIndex = base,
                     endIndex = base + length full\<rparr>
                   # scanLeaves (base + length full) (drop (length full) s))
           | None \<Rightarrow> scanLeaves (Suc base) (tl s))"
  by pat_completeness auto
termination
  by (relation "measure (\<lambda>(base, s). length s)") auto

declare scanLeaves.simps [simp del]

text \<open>\<open>s.replace(/(<w:t[^>]*>)([^<]*?)(<\/w:t>)/g, f)\<close>: every match, left to right and
  without overlap, is replaced by what the callback returns; the rest is copied.\<close>

function replaceLeaves :: "(string \<Rightarrow> string \<Rightarrow> string \<Rightarrow> string) \<Rightarrow> string \<Rightarrow> string" where
  "replaceLeaves f s =
     (if s = [] then []
      else case matchLeaf s of
             Some (openTag, c) \<Rightarrow>
               f openTag c ''</w:t>''
               @ replaceLeaves f (drop (length (openTag @ c @ ''</w:t>'')) s)
           | None \<Rightarrow> hd s # replaceLeaves f (tl s))"
  by pat_completeness auto
termination
  by (relation "measure (\<lambda>(f, s). length s)") auto

declare replaceLeaves.simps [simp del]

section \<open>The cross-fragment matcher\<close>

text \<open>
  \<open>actualSpan\<close> and \<open>offsetInFirstNode\<close> are results of subtractions in the source,
  so they are integers here; indices into \<open>textNodes\<close> are naturals.
\<close>

record match =
  startNodeIndex :: nat
  actualSpan :: int
  original_m :: string
  replacement_m :: string
  offsetInFirstNode :: int

record matcher_state =
  processed :: "nat set"
  matches :: "match list"

text \<open>
  The loop \<open>for (j = 0; j < span; j++)\<close> of lines 112 to 131 over the contents of the
  window, \<open>idx\<close> being \<open>i + j\<close>; it returns \<open>(startNodeIndex, endNodeIndex)\<close>, and the
  \<open>break\<close> is the early return.
\<close>

fun locate :: "nat \<Rightarrow> nat \<Rightarrow> string list \<Rightarrow> nat \<Rightarrow> nat \<Rightarrow> nat \<Rightarrow> nat \<Rightarrow> nat \<times> nat" where
  "locate matchStart matchEnd [] idx charCount sIdx eIdx = (sIdx, eIdx)"
| "locate matchStart matchEnd (c # cs) idx charCount sIdx eIdx =
     (let nodeLen = length c;
          nodeEnd = charCount + nodeLen;
          sIdx' = (if charCount \<le> matchStart \<and> matchStart < nodeEnd then idx else sIdx)
      in if charCount < matchEnd \<and> matchEnd \<le> nodeEnd then (sIdx', idx)
         else locate matchStart matchEnd cs (Suc idx) nodeEnd sIdx'
                (if charCount < matchEnd \<and> nodeEnd < matchEnd then idx else eIdx))"

definition window :: "textNode list \<Rightarrow> nat \<Rightarrow> nat \<Rightarrow> string list" where
  "window textNodes i span = map content (take span (drop i textNodes))"

text \<open>The body of \<open>if (combinedText.includes(original))\<close> up to the test of
  \<open>processed\<close>: the match that would be recorded.\<close>

definition candidate :: "textNode list \<Rightarrow> nat \<Rightarrow> nat \<Rightarrow> redaction \<Rightarrow> nat \<Rightarrow> match" where
  "candidate textNodes i span item matchStart =
     (let (sIdx, eIdx) =
            locate matchStart (matchStart + length (original item)) (window textNodes i span)
              i 0 i i
      in \<lparr>startNodeIndex = sIdx,
          actualSpan = int eIdx - int sIdx + 1,
          original_m = original item,
          replacement_m = replacement item,
          offsetInFirstNode =
            int matchStart - int (sum_list (map length (window textNodes i (sIdx - i))))\<rparr>)"

text \<open>\<open>for (const item of redactions)\<close> for one window; the \<open>break\<close> after a recorded
  match ends the recursion.  The marking loop adds every \<open>j\<close> with
  \<open>startNodeIndex \<le> j < startNodeIndex + actualSpan\<close> to \<open>processed\<close>.\<close>

fun tryRules :: "textNode list \<Rightarrow> nat \<Rightarrow> nat \<Rightarrow> redaction list \<Rightarrow> matcher_state \<Rightarrow> matcher_state" where
  "tryRules textNodes i span [] st = st"
| "tryRules textNodes i span (item # items) st =
     (case indexOf (concat (window textNodes i span)) (original item) of
        None \<Rightarrow> tryRules textNodes i span items st
      | Some matchStart \<Rightarrow>
          (let m = candidate textNodes i span item matchStart
           in if startNodeIndex m \<notin> processed st
              then \<lparr>processed = processed st \<union>
                       {startNodeIndex m ..< nat (int (startNodeIndex m) + actualSpan m)},
                     matches = matches st @ [m]\<rparr>
              else tryRules textNodes i span items st))"

text \<open>\<open>for (span = 1; span <= Math.min(5, textNodes.length - i); span++)\<close>, over the
  spans still to try.\<close>

fun spanLoop :: "textNode list \<Rightarrow> redaction list \<Rightarrow> nat \<Rightarrow> nat list \<Rightarrow> matcher_state \<Rightarrow> matcher_state" where
  "spanLoop textNodes redactions i [] st = st"
| "spanLoop textNodes redactions i (span # spans) st =
     (let st' = tryRules textNodes i span redactions st
      in if i \<in> processed st' then st' else spanLoop textNodes redactions i spans st')"

fun nodeLoop :: "textNode list \<Rightarrow> redaction list \<Rightarrow> nat list \<Rightarrow> matcher_state \<Rightarrow> matcher_state" where
  "nodeLoop textNodes redactions [] st = st"
| "nodeLoop textNodes redactions (i # is) st =
     (if i \<in> processed st then nodeLoop textNodes redactions is st
      else nodeLoop textNodes redactions is
             (spanLoop textNodes redactions i
                [1 ..< Suc (min 5 (length textNodes - i))] st))"

definition findMatches :: "textNode list \<Rightarrow> redaction list \<Rightarrow> match list" where
  "findMatches textNodes redactions =
     matches (nodeLoop textNodes redactions [0 ..< length textNodes]
                \<lparr>processed = {}, matches = []\<rparr>)"

section \<open>Errors and the limit on the length of a string\<close>

text \<open>
  Reading a property of \<open>textNodes[k]\<close> with \<open>k\<close> out of range throws a
  \<open>TypeError\<close>.  Building a string longer than the engine allows throws a
  \<open>RangeError\<close> (Invalid string length).  The limit is the engine's, not the
  repository's: \<open>maxStringLength\<close> is that of V8 on a 64-bit platform,
  \<open>2^29 - 24\<close>, under which Node.js runs the script.
\<close>

datatype js_error = TypeError | RangeError

definition maxStringLength :: int where
  "maxStringLength = 536870888"

text \<open>A string that has just been built by a concatenation, a \<open>replace\<close> or a
  \<open>join\<close>.\<close>

definition mkString :: "string \<Rightarrow> js_error + string" where
  "mkString s = (if int (length s) \<le> maxStringLength then Inr s else Inl RangeError)"

text \<open>Sequencing: a throw ends the computation.\<close>

definition thenE :: "js_error + 'a \<Rightarrow> ('a \<Rightarrow> js_error + 'b) \<Rightarrow> js_error + 'b" where
  "thenE r f = (case r of Inl e \<Rightarrow> Inl e | Inr x \<Rightarrow> f x)"

section \<open>The markup splicer\<close>

text \<open>
  The callback of line 264 for one leaf \<open>match\<close> of the block, with the counter
  \<open>nodeIndex\<close> passed in and out.  \<open>xmlBlock.indexOf(match)\<close> is the first place the
  text of the leaf occurs in the block.  Replacing the content by the empty string
  builds nothing longer than the leaf.
\<close>

definition spliceLeaf ::
  "string \<Rightarrow> nat \<Rightarrow> textNode \<Rightarrow> textNode \<Rightarrow> int \<Rightarrow> int \<Rightarrow> string
     \<Rightarrow> nat \<Rightarrow> string \<Rightarrow> string \<Rightarrow> js_error + (string \<times> nat)" where
  "spliceLeaf xmlBlock blockStart firstTNode lastTNode tSpan offsetInFirst replacement_str
     nodeIndex match_str content_str =
     (case indexOf xmlBlock match_str of
        None \<Rightarrow> Inr (match_str, nodeIndex)
      | Some matchPosInBlock \<Rightarrow>
          (let absolutePos = blockStart + matchPosInBlock;
               isFirstNode = (startIndex firstTNode \<le> absolutePos
                              \<and> absolutePos < endIndex firstTNode);
               isLastNode = (startIndex lastTNode \<le> absolutePos
                             \<and> absolutePos < endIndex lastTNode);
               isMiddleNode = (\<not> isFirstNode \<and> \<not> isLastNode \<and> 0 < nodeIndex
                               \<and> int nodeIndex < tSpan - 1)
           in if isFirstNode \<or> isLastNode \<or> isMiddleNode then
                (if nodeIndex = 0 then
                   (let prefix = substring (content firstTNode) 0 (nat offsetInFirst)
                    in thenE (mkString (prefix @ replacement_str))
                         (\<lambda>newText.
                            thenE (mkString (replace_str match_str content_str newText))
                              (\<lambda>out. Inr (out, nodeIndex + 1))))
                 else Inr (replace_str match_str content_str [], nodeIndex + 1))
              else Inr (match_str, nodeIndex)))"

text \<open>\<open>xmlBlock.replace(tPattern, callback)\<close>: as \<^const>\<open>replaceLeaves\<close>, with the
  callback's counter threaded through the matches; a throw of the callback ends
  the replacement.\<close>

function rewriteBlock ::
  "(nat \<Rightarrow> string \<Rightarrow> string \<Rightarrow> js_error + (string \<times> nat)) \<Rightarrow> nat \<Rightarrow> string
     \<Rightarrow> js_error + string" where
  "rewriteBlock f nodeIndex s =
     (if s = [] then Inr []
      else case matchLeaf s of
             Some (openTag, c) \<Rightarrow>
               (case f nodeIndex (openTag @ c @ ''</w:t>'') c of
                  Inl e \<Rightarrow> Inl e
                | Inr (out, nodeIndex') \<Rightarrow>
                    (case rewriteBlock f nodeIndex'
                            (drop (length (openTag @ c @ ''</w:t>'')) s) of
                       Inl e \<Rightarrow> Inl e
                     | Inr rest \<Rightarrow> Inr (out @ rest)))
           | None \<Rightarrow>
               (case rewriteBlock f nodeIndex (tl s) of
                  Inl e \<Rightarrow> Inl e
                | Inr rest \<Rightarrow> Inr (hd s # rest)))"
  by pat_completeness auto
termination
  by (relation "measure (\<lambda>(f, nodeIndex, s). length s)") auto

declare rewriteBlock.simps [simp del]

text \<open>Steps 3 and 4 of the multi-node case: \<open>(blockStart, blockEnd)\<close>.  \<open>lastRStart\<close> is
  assigned and never read, so it is left out.\<close>

definition blockBounds :: "string \<Rightarrow> textNode \<Rightarrow> textNode \<Rightarrow> nat \<times> nat" where
  "blockBounds xmlContent firstTNode lastTNode =
     (let beforeFirstT = substring xmlContent 0 (startIndex firstTNode);
          firstRStart = (case lastIndexOf beforeFirstT ''<w:r>'' of
                           None \<Rightarrow> startIndex firstTNode
                         | Some k \<Rightarrow> k);
          afterLastT = drop (endIndex lastTNode) xmlContent;
          firstREnd = (case indexOf afterLastT ''</w:r>'' of None \<Rightarrow> 0 | Some k \<Rightarrow> k);
          firstREndPos = endIndex lastTNode + firstREnd + 6;
          betweenRuns = substring xmlContent firstREndPos (endIndex lastTNode);
          lastREndPos =
            (if includes_str betweenRuns ''<w:r>'' \<and> includes_str betweenRuns ''</w:r>''
             then (let afterLastT2 = drop (endIndex lastTNode) xmlContent;
                       lastREnd = (case indexOf afterLastT2 ''</w:r>'' of
                                     None \<Rightarrow> 0
                                   | Some k \<Rightarrow> k)
                   in endIndex lastTNode + lastREnd + 6)
             else firstREndPos)
      in (firstRStart, lastREndPos))"

text \<open>Steps 5 and 6 and the result of the multi-node case, for a region from
  \<open>blockStart\<close> to \<open>blockEnd\<close>.\<close>

definition spliceRegion ::
  "string \<Rightarrow> textNode \<Rightarrow> textNode \<Rightarrow> int \<Rightarrow> int \<Rightarrow> string \<Rightarrow> nat \<Rightarrow> nat
     \<Rightarrow> js_error + string" where
  "spliceRegion xmlContent firstTNode lastTNode tSpan offsetInFirst replacement_str
     blockStart blockEnd =
     (let xmlBlock = substring xmlContent blockStart blockEnd
      in thenE (rewriteBlock
                  (spliceLeaf xmlBlock blockStart firstTNode lastTNode tSpan offsetInFirst
                     replacement_str)
                  0 xmlBlock)
           (\<lambda>r. thenE (mkString r)
                  (\<lambda>newXmlBlock.
                     mkString (substring xmlContent 0 blockStart @ newXmlBlock
                               @ drop blockEnd xmlContent))))"

text \<open>The loop of lines 221 to 223: \<open>fullContent += textNodes[startIndex + i].content\<close>
  for the \<open>count\<close> nodes from \<open>idx\<close> on.\<close>

fun fullContentLoop :: "textNode list \<Rightarrow> nat \<Rightarrow> nat \<Rightarrow> string \<Rightarrow> js_error + string" where
  "fullContentLoop textNodes idx 0 fullContent = Inr fullContent"
| "fullContentLoop textNodes idx (Suc count) fullContent =
     (if idx < length textNodes
      then thenE (mkString (fullContent @ content (textNodes ! idx)))
             (fullContentLoop textNodes (Suc idx) count)
      else Inl TypeError)"

text \<open>\<open>newFullContent\<close> of line 226 is built and never read; building it can
  throw.\<close>

definition performCrossTagReplace ::
  "string \<Rightarrow> textNode list \<Rightarrow> nat \<Rightarrow> int \<Rightarrow> int \<Rightarrow> string \<Rightarrow> string \<Rightarrow> js_error + string" where
  "performCrossTagReplace xmlContent textNodes startIdx tSpan offsetInFirst
     original_str replacement_str =
     (if \<not> startIdx < length textNodes then Inl TypeError
      else
        (let firstTNode = textNodes ! startIdx in
         if tSpan = 1 then
           (let node = firstTNode;
                nodeContent = content node
            in thenE
                 (if offsetInFirst = 0
                  then mkString (replace_str nodeContent original_str replacement_str)
                  else
                    (let prefix = substring nodeContent 0 (nat offsetInFirst);
                         suffix = drop (nat (offsetInFirst + int (length original_str)))
                                    nodeContent
                     in mkString (prefix @ replacement_str @ suffix)))
                 (\<lambda>newContent.
                    thenE (mkString (replace_str (fullMatch node) nodeContent newContent))
                      (\<lambda>newNodeTag.
                         mkString (substring xmlContent 0 (startIndex node) @ newNodeTag
                                   @ drop (endIndex node) xmlContent))))
         else
           thenE (fullContentLoop textNodes startIdx (nat tSpan) [])
             (\<lambda>fullContent.
                thenE (mkString (replace_str fullContent original_str replacement_str))
                  (\<lambda>newFullContent.
                     if \<not> (0 \<le> int startIdx + tSpan - 1
                            \<and> nat (int startIdx + tSpan - 1) < length textNodes)
                     then Inl TypeError
                     else
                       (let lastTNode = textNodes ! nat (int startIdx + tSpan - 1);
                            (blockStart, blockEnd) = blockBounds xmlContent firstTNode lastTNode
                        in spliceRegion xmlContent firstTNode lastTNode tSpan offsetInFirst
                             replacement_str blockStart blockEnd)))))"

section \<open>One pass, the iteration driver and the residual pass\<close>

text \<open>The loop of lines 175 to 178 over the matches in the order it visits them
  (last recorded first); \<open>textNodes\<close> stays the list extracted before the pass.\<close>

fun applyMatches :: "string \<Rightarrow> textNode list \<Rightarrow> match list \<Rightarrow> js_error + string" where
  "applyMatches result textNodes [] = Inr result"
| "applyMatches result textNodes (m # ms) =
     (case performCrossTagReplace result textNodes (startNodeIndex m) (actualSpan m)
             (offsetInFirstNode m) (original_m m) (replacement_m m) of
        Inl e \<Rightarrow> Inl e
      | Inr result' \<Rightarrow> applyMatches result' textNodes ms)"

text \<open>
  \<open>handleCrossTagReplacement\<close>.  The pattern is created by the call itself and its
  \<open>lastIndex\<close> is set to 0 before the scan.  The windows the matcher concatenates
  are pieces of the markup, so \<open>combinedText\<close> is never longer than the markup.
\<close>

definition handleCrossTagReplacement :: "string \<Rightarrow> redaction list \<Rightarrow> js_error + string" where
  "handleCrossTagReplacement xmlContent redactions =
     (let lastIndex = 0;
          textNodes = scanLeaves lastIndex (drop lastIndex xmlContent);
          ms = findMatches textNodes redactions
      in if length ms = 0 then Inr xmlContent
         else applyMatches xmlContent textNodes (rev ms))"

definition maxIterations :: nat where
  "maxIterations = 100"

text \<open>
  The \<open>do ... while (hasCrossTagMatch && iteration < maxIterations)\<close> loop.  The
  result carries the value of \<open>iteration\<close> when the loop is left, which is the number
  of passes that returned.
\<close>

function crossTagPasses :: "redaction list \<Rightarrow> string \<Rightarrow> nat \<Rightarrow> (js_error + string) \<times> nat" where
  "crossTagPasses redactions result iteration =
     (case handleCrossTagReplacement result redactions of
        Inl e \<Rightarrow> (Inl e, iteration)
      | Inr result' \<Rightarrow>
          (let hasCrossTagMatch = (length result \<noteq> length result');
               iteration' = iteration + 1
           in if hasCrossTagMatch \<and> iteration' < maxIterations
              then crossTagPasses redactions result' iteration'
              else (Inr result', iteration')))"
  by pat_completeness auto
termination
  by (relation "measure (\<lambda>(redactions, result, iteration). maxIterations - iteration)")
     auto

declare crossTagPasses.simps [simp del]

text \<open>Lines 48 to 54: for every rule in turn, each leaf's content is split at the
  rule's original and joined with its replacement.\<close>

definition residualRule :: "redaction \<Rightarrow> string \<Rightarrow> string" where
  "residualRule item result =
     replaceLeaves
       (\<lambda>openTag c closeTag.
          openTag @ join (split c (original item)) (replacement item) @ closeTag)
       result"

fun residualPass :: "redaction list \<Rightarrow> string \<Rightarrow> string" where
  "residualPass [] result = result"
| "residualPass (item # items) result = residualPass items (residualRule item result)"

text \<open>
  The residual pass with the limit on strings.  Every string a rule's \<open>replace\<close>
  builds on the way (the joined content, the rewritten leaf) is a part of its
  result, so the \<open>replace\<close> throws exactly when its result is too long.
\<close>

fun residualPassChecked :: "redaction list \<Rightarrow> string \<Rightarrow> js_error + string" where
  "residualPassChecked [] result = Inr result"
| "residualPassChecked (item # items) result =
     thenE (mkString (residualRule item result)) (residualPassChecked items)"

definition replaceInXML :: "string \<Rightarrow> redaction list \<Rightarrow> js_error + string" where
  "replaceInXML xmlContent redactions =
     (case fst (crossTagPasses redactions xmlContent 0) of
        Inl e \<Rightarrow> Inl e
      | Inr result \<Rightarrow> residualPassChecked redactions result)"

section \<open>Processing the parts of a document\<close>

text \<open>\<open>[...redactions].sort((a, b) => b.original.length - a.original.length)\<close>: a stable
  sort by descending length of the original.\<close>

definition sortedRedactions :: "redaction list \<Rightarrow> redaction list" where
  "sortedRedactions redactions = sort_key (\<lambda>r. - int (length (original r))) redactions"

text \<open>
  The archive is outside the engine; it is taken as the text of
  \<open>word/document.xml\<close> and the list of the other entries with their names.  The
  main part is rewritten with the sorted rules, every entry whose name starts with
  \<open>word/header/\<close> or \<open>word/footer/\<close> with the rules as the caller gave them.
\<close>

fun processEntries :: "redaction list \<Rightarrow> (string \<times> string) list \<Rightarrow> js_error + (string \<times> string) list" where
  "processEntries redactions [] = Inr []"
| "processEntries redactions ((entryName, text) # es) =
     (if startsWith entryName ''word/header/'' \<or> startsWith entryName ''word/footer/'' then
        (case replaceInXML text redactions of
           Inl e \<Rightarrow> Inl e
         | Inr text' \<Rightarrow>
             (case processEntries redactions es of
                Inl e \<Rightarrow> Inl e
              | Inr es' \<Rightarrow> Inr ((entryName, text') # es')))
      else
        (case processEntries redactions es of
           Inl e \<Rightarrow> Inl e
         | Inr es' \<Rightarrow> Inr ((entryName, text) # es')))"

definition processDocx ::
  "string \<Rightarrow> (string \<times> string) list \<Rightarrow> redaction list
     \<Rightarrow> js_error + (string \<times> (string \<times> string) list)" where
  "processDocx documentXml entries redactions =
     (case replaceInXML documentXml (sortedRedactions redactions) of
        Inl e \<Rightarrow> Inl e
      | Inr documentXml' \<Rightarrow>
          (case processEntries redactions entries of
             Inl e \<Rightarrow> Inl e
           | Inr entries' \<Rightarrow> Inr (documentXml', entries')))"

section \<open>Balance of the block markers\<close>

text \<open>A markup string is balanced when its \<open><w:r>\<close> and \<open></w:r>\<close> markers nest: read
  left to right, no closing marker comes without an open block and no block stays
  open at the end.\<close>

fun balancedFrom :: "nat \<Rightarrow> string \<Rightarrow> bool" where
  "balancedFrom depth [] = (depth = 0)"
| "balancedFrom depth (c # cs) =
     (if startsWith (c # cs) ''<w:r>'' then balancedFrom (Suc depth) cs
      else if startsWith (c # cs) ''</w:r>'' then 0 < depth \<and> balancedFrom (depth - 1) cs
      else balancedFrom depth cs)"

definition balanced :: "string \<Rightarrow> bool" where
  "balanced s = balancedFrom 0 s"

section \<open>Notions used in the statements\<close>

text \<open>A match is well formed for a node list when \<open>textNodes[startNodeIndex]\<close> and
  \<open>textNodes[startNodeIndex + actualSpan - 1]\<close> both exist.\<close>

definition validMatch :: "textNode list \<Rightarrow> match \<Rightarrow> bool" where
  "validMatch textNodes m =
     (startNodeIndex m < length textNodes
      \<and> 0 \<le> int (startNodeIndex m) + actualSpan m - 1
      \<and> nat (int (startNodeIndex m) + actualSpan m - 1) < length textNodes)"

text \<open>
  A leaf that doubles on every pass.  With the rule \<open>b\<close> to \<open>$&\<close>, a leaf of \<open>n\<close> times
  \<open>a\<close> followed by \<open>b\<close> gets the new content \<open>a\<dots>a$&\<close>, and line 213 reads the
  \<open>$&\<close> as the old content: the leaf then holds \<open>2 * n\<close> times \<open>a\<close> followed by \<open>b\<close>.
\<close>

definition doubling :: "nat \<Rightarrow> string" where
  "doubling n = ''<w:t>'' @ replicate n CHR ''a'' @ ''b</w:t>''"

text \<open>The first rule of the list whose original occurs in a content, with the
  index of its first occurrence there.\<close>

fun firstOccurring :: "redaction list \<Rightarrow> string \<Rightarrow> (redaction \<times> nat) option" where
  "firstOccurring [] c = None"
| "firstOccurring (item # items) c =
     (case indexOf c (original item) of
        Some k \<Rightarrow> Some (item, k)
      | None \<Rightarrow> firstOccurring items c)"

text \<open>The match of one fragment alone: span 1, for the rule \<open>item\<close> found at \<open>k\<close>.\<close>

definition matchInFragment :: "nat \<Rightarrow> redaction \<times> nat \<Rightarrow> match" where
  "matchInFragment i p =
     \<lparr>startNodeIndex = i, actualSpan = 1, original_m = original (fst p),
      replacement_m = replacement (fst p), offsetInFirstNode = int (snd p)\<rparr>"

text \<open>The text of a leaf: the opening tag with its attributes, the content, the
  closing tag.\<close>

definition leafText :: "string \<Rightarrow> string \<Rightarrow> string" where
  "leafText a c = ''<w:t'' @ a @ ''>'' @ c @ ''</w:t>''"

text \<open>
  The region as the specification describes it: it starts at the nearest
  \<open><w:r>\<close> before the first fragment and ends with the nearest \<open></w:r>\<close> after the
  last fragment; where a marker is missing, the fragment's own start or end is the
  boundary.
\<close>

definition ownBounds :: "string \<Rightarrow> textNode \<Rightarrow> textNode \<Rightarrow> nat \<times> nat" where
  "ownBounds xmlContent firstTNode lastTNode =
     ((case lastIndexOf (substring xmlContent 0 (startIndex firstTNode)) ''<w:r>'' of
         None \<Rightarrow> startIndex firstTNode
       | Some k \<Rightarrow> k),
      (case indexOf (drop (endIndex lastTNode) xmlContent) ''</w:r>'' of
         None \<Rightarrow> endIndex lastTNode
       | Some k \<Rightarrow> endIndex lastTNode + k + 6))"

section \<open>No pass reads a node that does not exist\<close>

lemma mkString_cases: "mkString s = Inr s \<or> mkString s = Inl RangeError"
  by (simp add: mkString_def)

lemma mkString_Inr: "mkString s = Inr r \<Longrightarrow> r = s \<and> int (length s) \<le> maxStringLength"
  by (simp add: mkString_def split: if_splits)

lemma thenE_Inl:
  "thenE r f = Inl e \<Longrightarrow> r = Inl e \<or> (\<exists>x. r = Inr x \<and> f x = Inl e)"
  by (cases r) (simp_all add: thenE_def)

lemma thenE_Inr [simp]: "thenE (Inr x) f = f x"
  by (simp add: thenE_def)

lemma thenE_Inl_left [simp]: "thenE (Inl e) f = Inl e"
  by (simp add: thenE_def)

lemma mkString_no_TypeError: "mkString s \<noteq> Inl TypeError"
  by (simp add: mkString_def)

lemma spliceLeaf_no_TypeError:
  "spliceLeaf xmlBlock blockStart firstT lastT tSpan off rep nodeIndex m c \<noteq> Inl TypeError"
  by (auto simp: spliceLeaf_def Let_def mkString_def thenE_def split: option.splits sum.splits)

lemma rewriteBlock_no_TypeError:
  "(\<And>n m c. f n m c \<noteq> Inl TypeError) \<Longrightarrow> rewriteBlock f nodeIndex s \<noteq> Inl TypeError"
proof (induction f nodeIndex s rule: rewriteBlock.induct)
  case (1 f nodeIndex s)
  show ?case
  proof (cases "s = []")
    case True
    then show ?thesis by (subst rewriteBlock.simps) simp
  next
    case ne: False
    show ?thesis
    proof (cases "matchLeaf s")
      case None
      from "1.IH"(1)[OF ne None "1.prems"] ne None show ?thesis
        by (subst rewriteBlock.simps) (auto split: sum.splits)
    next
      case (Some p)
      obtain openTag c where p: "p = (openTag, c)" by (cases p)
      show ?thesis
      proof (cases "f nodeIndex (openTag @ c @ ''</w:t>'') c")
        case (Inl e)
        with "1.prems"[of nodeIndex "openTag @ c @ ''</w:t>''" c] have "e \<noteq> TypeError" by auto
        with ne Some p Inl show ?thesis by (subst rewriteBlock.simps) simp
      next
        case (Inr q)
        obtain out n' where q: "q = (out, n')" by (cases q)
        from "1.IH"(2)[OF ne Some p[symmetric] Inr[unfolded q] refl "1.prems"]
        have "rewriteBlock f n' (drop (length (openTag @ c @ ''</w:t>'')) s) \<noteq> Inl TypeError" .
        with ne Some p Inr q show ?thesis
          by (subst rewriteBlock.simps) (auto split: sum.splits)
      qed
    qed
  qed
qed

lemma spliceRegion_no_TypeError:
  "spliceRegion xml firstT lastT tSpan off rep bs be \<noteq> Inl TypeError"
proof
  assume a: "spliceRegion xml firstT lastT tSpan off rep bs be = Inl TypeError"
  have "rewriteBlock (spliceLeaf (substring xml bs be) bs firstT lastT tSpan off rep) 0
          (substring xml bs be) \<noteq> Inl TypeError"
    by (rule rewriteBlock_no_TypeError) (rule spliceLeaf_no_TypeError)
  with a show False
    by (auto simp: spliceRegion_def Let_def mkString_def dest!: thenE_Inl split: if_splits)
qed

lemma fullContentLoop_no_TypeError:
  "idx + count \<le> length textNodes \<Longrightarrow> fullContentLoop textNodes idx count acc \<noteq> Inl TypeError"
proof (induction count arbitrary: idx acc)
  case 0
  then show ?case by simp
next
  case (Suc count)
  then have "idx < length textNodes" "Suc idx + count \<le> length textNodes" by auto
  with Suc.IH[of "Suc idx"] show ?case
    by (auto simp: mkString_def)
qed

lemma performCrossTagReplace_valid:
  assumes "validMatch textNodes m"
  shows "performCrossTagReplace xml textNodes (startNodeIndex m) (actualSpan m) off orig rep
           \<noteq> Inl TypeError"
proof
  assume a: "performCrossTagReplace xml textNodes (startNodeIndex m) (actualSpan m) off orig rep
           = Inl TypeError"
  from assms have v: "startNodeIndex m < length textNodes"
    "0 \<le> int (startNodeIndex m) + actualSpan m - 1"
    "nat (int (startNodeIndex m) + actualSpan m - 1) < length textNodes"
    by (auto simp: validMatch_def)
  then have "startNodeIndex m + nat (actualSpan m) \<le> length textNodes" by linarith
  then have l: "fullContentLoop textNodes (startNodeIndex m) (nat (actualSpan m)) [] \<noteq> Inl TypeError"
    by (rule fullContentLoop_no_TypeError)
  show False
  proof (cases "actualSpan m = 1")
    case True
    with a v show ?thesis
      by (auto simp: performCrossTagReplace_def Let_def mkString_def dest!: thenE_Inl
               split: if_splits)
  next
    case False
    with a v l show ?thesis
      using spliceRegion_no_TypeError
      by (auto simp: performCrossTagReplace_def Let_def mkString_def dest!: thenE_Inl
               split: if_splits prod.splits)
  qed
qed

lemma locate_range:
  "locate ms me cs idx cc s e = (s', e') \<Longrightarrow>
     (s' = s \<or> (idx \<le> s' \<and> s' < idx + length cs))
     \<and> (e' = e \<or> (idx \<le> e' \<and> e' < idx + length cs))"
proof (induction cs arbitrary: idx cc s e)
  case Nil
  then show ?case by simp
next
  case (Cons c cs)
  show ?case
  proof (cases "cc < me \<and> me \<le> cc + length c")
    case True
    with Cons.prems show ?thesis by (auto simp: Let_def split: if_splits)
  next
    case False
    let ?s = "if cc \<le> ms \<and> ms < cc + length c then idx else s"
    let ?e = "if cc < me \<and> cc + length c < me then idx else e"
    from Cons.prems
    have "locate ms me cs (Suc idx) (cc + length c) ?s ?e = (s', e')"
      unfolding locate.simps Let_def by (simp only: False if_False)
    from Cons.IH[OF this] show ?thesis by (auto split: if_splits)
  qed
qed

lemma candidate_valid:
  assumes "i < length textNodes"
  shows "validMatch textNodes (candidate textNodes i span item matchStart)"
proof -
  obtain s e where le:
    "locate matchStart (matchStart + length (original item)) (window textNodes i span) i 0 i i
       = (s, e)"
    by (cases "locate matchStart (matchStart + length (original item))
                 (window textNodes i span) i 0 i i")
  have len: "length (window textNodes i span) \<le> length textNodes - i"
    by (simp add: window_def)
  from locate_range[OF le] len assms have "s < length textNodes" "e < length textNodes"
    by auto
  with le show ?thesis by (simp add: candidate_def validMatch_def)
qed

text \<open>The start of a candidate is never before the window, so the count
  \<open>startNodeIndex - i\<close> of the loop of lines 137 to 139 is not negative.\<close>

lemma candidate_start_ge: "i \<le> startNodeIndex (candidate textNodes i span item matchStart)"
proof -
  obtain s e where le:
    "locate matchStart (matchStart + length (original item)) (window textNodes i span) i 0 i i
       = (s, e)"
    by (cases "locate matchStart (matchStart + length (original item))
                 (window textNodes i span) i 0 i i")
  from locate_range[OF le] have "i \<le> s" by auto
  with le show ?thesis by (simp add: candidate_def)
qed

lemma tryRules_valid:
  "i < length textNodes \<Longrightarrow> \<forall>m \<in> set (matches st). validMatch textNodes m \<Longrightarrow>
   \<forall>m \<in> set (matches (tryRules textNodes i span rs st)). validMatch textNodes m"
  by (induction rs) (auto simp: Let_def candidate_valid split: option.splits)

lemma spanLoop_valid:
  "i < length textNodes \<Longrightarrow> \<forall>m \<in> set (matches st). validMatch textNodes m \<Longrightarrow>
   \<forall>m \<in> set (matches (spanLoop textNodes rs i spans st)). validMatch textNodes m"
proof (induction spans arbitrary: st)
  case Nil
  then show ?case by simp
next
  case (Cons span spans)
  from tryRules_valid[OF Cons.prems]
  have v: "\<forall>m \<in> set (matches (tryRules textNodes i span rs st)). validMatch textNodes m" .
  show ?case using v Cons.IH[OF Cons.prems(1) v] by (simp add: Let_def)
qed

lemma nodeLoop_valid:
  "\<forall>i \<in> set is. i < length textNodes \<Longrightarrow> \<forall>m \<in> set (matches st). validMatch textNodes m \<Longrightarrow>
   \<forall>m \<in> set (matches (nodeLoop textNodes rs is st)). validMatch textNodes m"
proof (induction "is" arbitrary: st)
  case Nil
  then show ?case by simp
next
  case (Cons i "is")
  from Cons.prems have i: "i < length textNodes" and rest: "\<forall>i \<in> set is. i < length textNodes"
    by auto
  let ?st = "spanLoop textNodes rs i [1 ..< Suc (min 5 (length textNodes - i))] st"
  have "\<forall>m \<in> set (matches ?st). validMatch textNodes m"
    by (rule spanLoop_valid[OF i Cons.prems(2)])
  from Cons.IH[OF rest this] Cons.IH[OF rest Cons.prems(2)] show ?case
    by (cases "i \<in> processed st") (simp_all only: nodeLoop.simps if_True if_False)
qed

lemma findMatches_valid: "\<forall>m \<in> set (findMatches textNodes rs). validMatch textNodes m"
  unfolding findMatches_def by (rule nodeLoop_valid) auto

lemma applyMatches_valid:
  "\<forall>m \<in> set ms. validMatch textNodes m \<Longrightarrow> applyMatches xml textNodes ms \<noteq> Inl TypeError"
proof (induction ms arbitrary: xml)
  case Nil
  then show ?case by simp
next
  case (Cons m ms)
  then have "performCrossTagReplace xml textNodes (startNodeIndex m) (actualSpan m)
             (offsetInFirstNode m) (original_m m) (replacement_m m) \<noteq> Inl TypeError"
    using performCrossTagReplace_valid[of textNodes m] by auto
  with Cons show ?case by (auto split: sum.splits)
qed

lemma handleCrossTagReplacement_no_TypeError:
  "handleCrossTagReplacement xml rs \<noteq> Inl TypeError"
  unfolding handleCrossTagReplacement_def Let_def
  using applyMatches_valid[of "rev (findMatches (scanLeaves 0 (drop 0 xml)) rs)"] findMatches_valid
  by auto

lemma handleCrossTagReplacement_cases:
  "(\<exists>r. handleCrossTagReplacement xml rs = Inr r)
   \<or> handleCrossTagReplacement xml rs = Inl RangeError"
proof (cases "handleCrossTagReplacement xml rs")
  case (Inl e)
  with handleCrossTagReplacement_no_TypeError[of xml rs] show ?thesis by (cases e) auto
next
  case (Inr r)
  then show ?thesis by blast
qed

lemma crossTagPasses_step:
  "handleCrossTagReplacement result rs = Inr result' \<Longrightarrow>
   crossTagPasses rs result it =
     (if length result \<noteq> length result' \<and> it + 1 < maxIterations
      then crossTagPasses rs result' (it + 1) else (Inr result', it + 1))"
  by (subst crossTagPasses.simps) (simp add: Let_def)

lemma crossTagPasses_throw:
  "handleCrossTagReplacement result rs = Inl e \<Longrightarrow> crossTagPasses rs result it = (Inl e, it)"
  by (subst crossTagPasses.simps) simp

lemma crossTagPasses_done:
  "\<exists>res n. crossTagPasses rs result it = (res, n) \<and> it \<le> n \<and> n \<le> max (it + 1) maxIterations
      \<and> (res = Inl RangeError \<or> (\<exists>r. res = Inr r \<and> it < n))"
proof (induction rs result it rule: crossTagPasses.induct)
  case (1 rs result it)
  from handleCrossTagReplacement_cases[of result rs] show ?case
  proof
    assume "\<exists>r. handleCrossTagReplacement result rs = Inr r"
    then obtain result' where h: "handleCrossTagReplacement result rs = Inr result'" by blast
    show ?thesis
    proof (cases "length result \<noteq> length result' \<and> it + 1 < maxIterations")
      case True
      from "1.IH"[OF h refl refl True]
      obtain res n where "crossTagPasses rs result' (it + 1) = (res, n)" "it + 1 \<le> n"
        "n \<le> max (it + 1 + 1) maxIterations"
        "res = Inl RangeError \<or> (\<exists>r. res = Inr r \<and> it + 1 < n)" by blast
      moreover have "crossTagPasses rs result it = crossTagPasses rs result' (it + 1)"
        using crossTagPasses_step[OF h, of it] True by simp
      ultimately show ?thesis using True by auto
    next
      case False
      have "crossTagPasses rs result it = (Inr result', it + 1)"
        using crossTagPasses_step[OF h, of it] False by auto
      then show ?thesis by simp
    qed
  next
    assume "handleCrossTagReplacement result rs = Inl RangeError"
    from crossTagPasses_throw[OF this, of it] show ?thesis by simp
  qed
qed

section \<open>The iteration driver\<close>

text \<open>
  Claim C7, as the code has it.  A pass that returns \<open>result'\<close> from \<open>result\<close> with the
  counter at \<open>it\<close> is followed by another pass when the lengths differ and
  \<open>it + 1 < 100\<close>, and ends the loop with \<open>it + 1\<close> passes otherwise; a pass that
  throws ends the loop with its error, which can only be the \<open>RangeError\<close> of a
  string that has grown past the limit.  Started at 0, the loop stops after at most
  100 passes: either it reaches DONE after at least one pass and the residual pass
  runs on its result, or a pass has thrown and \<open>replaceInXML\<close> throws with it.
\<close>

theorem iteration_driver_stops:
  "(\<exists>res n. crossTagPasses rs xml 0 = (res, n) \<and> n \<le> 100
      \<and> ((\<exists>r. res = Inr r \<and> 1 \<le> n \<and> replaceInXML xml rs = residualPassChecked rs r)
           \<or> (res = Inl RangeError \<and> replaceInXML xml rs = Inl RangeError)))
   \<and> (\<forall>result result' it.
         handleCrossTagReplacement result rs = Inr result' \<longrightarrow>
         crossTagPasses rs result it =
           (if length result \<noteq> length result' \<and> it + 1 < 100
            then crossTagPasses rs result' (it + 1) else (Inr result', it + 1)))
   \<and> (\<forall>result e it.
         handleCrossTagReplacement result rs = Inl e \<longrightarrow>
         e = RangeError \<and> crossTagPasses rs result it = (Inl e, it))"
proof (intro conjI allI impI)
  obtain res n where d: "crossTagPasses rs xml 0 = (res, n)" "n \<le> max (0 + 1) maxIterations"
    "res = Inl RangeError \<or> (\<exists>r. res = Inr r \<and> 0 < n)"
    using crossTagPasses_done[of rs xml 0] by blast
  then show "\<exists>res n. crossTagPasses rs xml 0 = (res, n) \<and> n \<le> 100
      \<and> ((\<exists>r. res = Inr r \<and> 1 \<le> n \<and> replaceInXML xml rs = residualPassChecked rs r)
           \<or> (res = Inl RangeError \<and> replaceInXML xml rs = Inl RangeError))"
    by (auto simp: maxIterations_def replaceInXML_def)
next
  fix result result' it
  assume "handleCrossTagReplacement result rs = Inr result'"
  from crossTagPasses_step[OF this, of it]
  show "crossTagPasses rs result it =
           (if length result \<noteq> length result' \<and> it + 1 < 100
            then crossTagPasses rs result' (it + 1) else (Inr result', it + 1))"
    by (simp add: maxIterations_def)
next
  fix result e it
  assume h: "handleCrossTagReplacement result rs = Inl e"
  with handleCrossTagReplacement_no_TypeError[of result rs] show "e = RangeError"
    by (cases e) auto
  from crossTagPasses_throw[OF h] show "crossTagPasses rs result it = (Inl e, it)" .
qed

theorem iteration_driver_stops_witness:
  "handleCrossTagReplacement ''<w:t>a</w:t>'' [\<lparr>original = ''a'', replacement = ''bb''\<rparr>]
     = Inr ''<w:t>bb</w:t>''
   \<and> crossTagPasses [\<lparr>original = ''a'', replacement = ''bb''\<rparr>] ''<w:t>a</w:t>'' 0
     = crossTagPasses [\<lparr>original = ''a'', replacement = ''bb''\<rparr>] ''<w:t>bb</w:t>'' 1
   \<and> (\<exists>res n. crossTagPasses [\<lparr>original = ''a'', replacement = ''bb''\<rparr>] ''<w:t>a</w:t>'' 0
               = (res, n) \<and> n \<le> 100)"
proof -
  have h: "handleCrossTagReplacement ''<w:t>a</w:t>''
             [\<lparr>original = ''a'', replacement = ''bb''\<rparr>] = Inr ''<w:t>bb</w:t>''"
    by code_simp
  note t = iteration_driver_stops
             [of "[\<lparr>original = ''a'', replacement = ''bb''\<rparr>]" "''<w:t>a</w:t>''"]
  from t have step: "crossTagPasses [\<lparr>original = ''a'', replacement = ''bb''\<rparr>] ''<w:t>a</w:t>'' 0
     = crossTagPasses [\<lparr>original = ''a'', replacement = ''bb''\<rparr>] ''<w:t>bb</w:t>'' 1"
    using h by simp
  from t have ex: "\<exists>res n. crossTagPasses [\<lparr>original = ''a'', replacement = ''bb''\<rparr>] ''<w:t>a</w:t>'' 0
               = (res, n) \<and> n \<le> 100" by blast
  from h step ex show ?thesis by blast
qed

lemma startsWith_self: "startsWith (p @ r) p"
  by (induction p) simp_all

lemma indexOf_doubling_content: "indexOf (replicate n CHR ''a'' @ ''b'') ''b'' = Some n"
  by (induction n) simp_all

lemma getSubstitution_doubling:
  "getSubstitution m s p (replicate n CHR ''a'' @ ''$&'') = replicate n CHR ''a'' @ m"
proof (induction n)
  case 0
  then show ?case by simp
next
  case (Suc n)
  then show ?case by (cases n) simp_all
qed

lemma matchLeaf_doubling:
  "matchLeaf (doubling n) = Some (''<w:t>'', replicate n CHR ''a'' @ ''b'')"
proof -
  have t: "takeWhile (\<lambda>c. c \<noteq> CHR ''<'') (replicate n CHR ''a'' @ ''b</w:t>'')
             = replicate n CHR ''a'' @ ''b''"
    by (subst takeWhile_append2) simp_all
  have d: "dropWhile (\<lambda>c. c \<noteq> CHR ''<'') (replicate n CHR ''a'' @ ''b</w:t>'') = ''</w:t>''"
    by (subst dropWhile_append2) simp_all
  show ?thesis
    by (simp add: matchLeaf_def doubling_def t d)
qed

lemma scanLeaves_doubling:
  "scanLeaves 0 (doubling n)
     = [\<lparr>fullMatch = doubling n, content = replicate n CHR ''a'' @ ''b'', startIndex = 0,
          endIndex = n + 12\<rparr>]"
proof -
  have l: "length (doubling n) = n + 12" by (simp add: doubling_def)
  have e: "scanLeaves (n + 12) [] = []" by (subst scanLeaves.simps) simp
  have ne: "doubling n \<noteq> []" by (simp add: doubling_def)
  have f: "''<w:t>'' @ (replicate n CHR ''a'' @ ''b'') @ ''</w:t>'' = doubling n"
    by (simp add: doubling_def)
  have d: "drop (n + 12) (doubling n) = []" by (simp add: l)
  show ?thesis
    by (subst scanLeaves.simps) (simp only: ne if_False matchLeaf_doubling option.case
          prod.case Let_def f l d add_0 e)
qed

lemma findMatches_doubling:
  "findMatches
     [\<lparr>fullMatch = doubling n, content = replicate n CHR ''a'' @ ''b'', startIndex = 0,
        endIndex = n + 12\<rparr>]
     [\<lparr>original = ''b'', replacement = ''$&''\<rparr>]
   = [\<lparr>startNodeIndex = 0, actualSpan = 1, original_m = ''b'', replacement_m = ''$&'',
        offsetInFirstNode = int n\<rparr>]"
  by (simp add: findMatches_def window_def candidate_def indexOf_doubling_content Let_def)

lemma indexOf_in_doubling:
  "0 < n \<Longrightarrow> indexOf (doubling n) (replicate n CHR ''a'' @ ''b'') = Some 5"
proof -
  assume "0 < n"
  then obtain k where n: "n = Suc k" by (cases n) auto
  show ?thesis
    using startsWith_self[of "replicate (Suc k) CHR ''a'' @ ''b''" "''</w:t>''"]
    by (simp add: doubling_def n)
qed

lemma splice_doubling:
  assumes "0 < n"
  shows "performCrossTagReplace (doubling n)
           [\<lparr>fullMatch = doubling n, content = replicate n CHR ''a'' @ ''b'', startIndex = 0,
              endIndex = n + 12\<rparr>]
           0 1 (int n) ''b'' ''$&''
         = (if int (2 * n + 12) \<le> maxStringLength then Inr (doubling (2 * n))
            else Inl RangeError)"
proof -
  let ?c = "replicate n CHR ''a'' @ ''b''"
  have r: "replace_str (doubling n) ?c (replicate n CHR ''a'' @ ''$&'') = doubling (2 * n)"
  proof -
    have t: "take 5 (doubling n) = ''<w:t>''" by (simp add: doubling_def)
    have "doubling n = (''<w:t>'' @ ?c) @ ''</w:t>''" by (simp add: doubling_def)
    moreover have "5 + length ?c = length (''<w:t>'' @ ?c)" by simp
    ultimately have d: "drop (5 + length ?c) (doubling n) = ''</w:t>''"
      by (metis append_eq_conv_conj)
    have "replace_str (doubling n) ?c (replicate n CHR ''a'' @ ''$&'')
            = ''<w:t>'' @ (replicate n CHR ''a'' @ ?c) @ ''</w:t>''"
      by (simp only: replace_str_def indexOf_in_doubling[OF assms] option.case
            getSubstitution_doubling t d)
    also have "\<dots> = doubling (2 * n)"
      by (simp add: doubling_def mult_2 replicate_add)
    finally show ?thesis .
  qed
  have l: "length (doubling (2 * n)) = 2 * n + 12" by (simp add: doubling_def)
  have d: "drop (n + 12) (doubling n) = []" by (simp add: doubling_def)
  have u: "performCrossTagReplace (doubling n)
           [\<lparr>fullMatch = doubling n, content = ?c, startIndex = 0, endIndex = n + 12\<rparr>]
           0 1 (int n) ''b'' ''$&''
         = thenE (mkString (replicate n CHR ''a'' @ ''$&''))
             (\<lambda>newContent.
                thenE (mkString (replace_str (doubling n) ?c newContent)) mkString)"
    using assms by (simp add: performCrossTagReplace_def Let_def substring_def d)
  show ?thesis
  proof (cases "mkString (replicate n CHR ''a'' @ ''$&'')")
    case (Inl e)
    then have "e = RangeError" "\<not> int (n + 2) \<le> maxStringLength"
      by (auto simp: mkString_def split: if_splits)
    then have "\<not> int (2 * n + 12) \<le> maxStringLength" by simp
    with Inl \<open>e = RangeError\<close> show ?thesis by (simp add: u)
  next
    case (Inr x)
    then have "x = replicate n CHR ''a'' @ ''$&''" by (auto dest: mkString_Inr)
    with Inr show ?thesis by (simp add: u r mkString_def l)
  qed
qed

lemma handle_doubling:
  assumes "0 < n"
  shows "handleCrossTagReplacement (doubling n) [\<lparr>original = ''b'', replacement = ''$&''\<rparr>]
         = (if int (2 * n + 12) \<le> maxStringLength then Inr (doubling (2 * n))
            else Inl RangeError)"
  by (simp add: handleCrossTagReplacement_def scanLeaves_doubling findMatches_doubling
        splice_doubling[OF assms] split: sum.splits)

lemma passes_doubling:
  "j \<le> 28 \<Longrightarrow>
   crossTagPasses [\<lparr>original = ''b'', replacement = ''$&''\<rparr>] (doubling (2 ^ (28 - j))) (28 - j)
     = (Inl RangeError, 28)"
proof (induction j)
  case 0
  have "handleCrossTagReplacement (doubling (2 ^ 28)) [\<lparr>original = ''b'', replacement = ''$&''\<rparr>]
          = Inl RangeError"
    by (subst handle_doubling) (simp_all add: maxStringLength_def)
  from crossTagPasses_throw[OF this, of 28] show ?case by simp
next
  case (Suc j)
  let ?n = "(2::nat) ^ (28 - Suc j)"
  from Suc.prems have e: "2 * ?n = 2 ^ (28 - j)"
    by (metis Suc_diff_Suc Suc_le_lessD power_Suc)
  have "(2::nat) ^ (28 - j) \<le> 2 ^ 28" by (rule power_increasing) simp_all
  then have "int (2 ^ (28 - j)) \<le> int (2 ^ 28)" by (simp only: of_nat_le_iff)
  then have "int (2 * ?n + 12) \<le> 268435456 + 12" unfolding e by simp
  then have fit: "int (2 * ?n + 12) \<le> maxStringLength"
    by (simp add: maxStringLength_def)
  have h: "handleCrossTagReplacement (doubling ?n) [\<lparr>original = ''b'', replacement = ''$&''\<rparr>]
          = Inr (doubling (2 ^ (28 - j)))"
    using handle_doubling[of ?n] fit e by simp
  have len: "length (doubling ?n) \<noteq> length (doubling (2 ^ (28 - j)))"
    unfolding e[symmetric] by (simp add: doubling_def)
  from Suc.prems have it: "28 - Suc j + 1 = 28 - j" "28 - Suc j + 1 < maxIterations"
    by (simp_all add: maxIterations_def)
  from crossTagPasses_step[OF h, of "28 - Suc j"] len it Suc show ?case by simp
qed

text \<open>
  Claim C7 as stated fails.  For the leaf \<open>ab\<close> and the rule \<open>b\<close> to \<open>$&\<close> every pass
  changes the length, the 29th pass would build a leaf of more than \<open>2^29\<close>
  characters and throws: the driver does not reach DONE and the residual pass does
  not run.
\<close>

theorem iteration_driver_counterexample:
  "crossTagPasses [\<lparr>original = ''b'', replacement = ''$&''\<rparr>] ''<w:t>ab</w:t>'' 0
     = (Inl RangeError, 28)
   \<and> replaceInXML ''<w:t>ab</w:t>'' [\<lparr>original = ''b'', replacement = ''$&''\<rparr>]
     = Inl RangeError"
proof -
  have "doubling 1 = ''<w:t>ab</w:t>''" by (simp add: doubling_def)
  with passes_doubling[of 28] show ?thesis by (simp add: replaceInXML_def)
qed

section \<open>Overlapping matches within one pass\<close>

text \<open>
  Claim C1.  The matcher tests \<open>processed\<close> for the first node of a match only.  On
  the three leaves \<open>a\<close>, \<open>b\<close>, \<open>xyz\<close> with the rules \<open>xyz\<close> and \<open>bx\<close>, the window of three
  leaves from node 0 records \<open>xyz\<close> in node 2, and the window of two leaves from
  node 1 then records \<open>bx\<close> over nodes 1 and 2: node 2 is claimed twice in one pass.
\<close>

theorem matcher_overlap_example:
  "findMatches
     (scanLeaves 0 ''<w:r><w:t>a</w:t></w:r><w:r><w:t>b</w:t></w:r><w:r><w:t>xyz</w:t></w:r>'')
     [\<lparr>original = ''xyz'', replacement = ''P''\<rparr>, \<lparr>original = ''bx'', replacement = ''Q''\<rparr>]
   = [\<lparr>startNodeIndex = 2, actualSpan = 1, original_m = ''xyz'', replacement_m = ''P'',
        offsetInFirstNode = 0\<rparr>,
      \<lparr>startNodeIndex = 1, actualSpan = 2, original_m = ''bx'', replacement_m = ''Q'',
        offsetInFirstNode = 0\<rparr>]"
  by code_simp

section \<open>The splice of a match over several leaves\<close>

text \<open>
  Claim C2.  The callback rewrites a leaf with \<open>match.replace(content, ...)\<close>, which
  replaces the first place the content occurs in the text of the whole leaf, tag
  included.  For the leaves \<open>a\<close>, \<open>t\<close> and the rule \<open>at\<close> to \<open>X\<close> the last leaf is not
  emptied: the \<open>t\<close> of its opening tag is removed instead.
\<close>

theorem multi_splice_example:
  "replaceInXML ''<w:r><w:t>a</w:t><w:t>t</w:t></w:r>''
     [\<lparr>original = ''at'', replacement = ''X''\<rparr>]
   = Inr ''<w:r><w:t>X</w:t><w:>t</w:t></w:r>''"
  by code_simp

section \<open>The splice of a match inside one leaf\<close>

text \<open>
  Claim C3.  The new text of the leaf is built with
  \<open>node.fullMatch.replace(nodeContent, newContent)\<close>: the first place the content
  occurs in the leaf may lie in its opening tag, and \<open>newContent\<close> is read as a
  replacement pattern.  A leaf \<open>w\<close> with the rule \<open>w\<close> to \<open>X\<close> has its tag rewritten and
  its content kept; in a leaf \<open>pay bob\<close> the rule \<open>bob\<close> to four dollar signs leaves two.
\<close>

theorem single_splice_example:
  "replaceInXML ''<w:t>w</w:t>'' [\<lparr>original = ''w'', replacement = ''X''\<rparr>]
     = Inr ''<X:t>w</w:t>''
   \<and> replaceInXML ''<w:t>pay bob</w:t>'' [\<lparr>original = ''bob'', replacement = ''$$$$''\<rparr>]
     = Inr ''<w:t>pay $$</w:t>''"
  by code_simp

section \<open>The order of the rules in headers and footers\<close>

text \<open>
  Claim C5.  \<open>processDocx\<close> sorts the rules for \<open>word/document.xml\<close> only; headers
  and footers get the caller's list.  With the rules \<open>CO\<close> to \<open>A\<close> and \<open>EXCO\<close> to \<open>B\<close> in
  this order, the content \<open>EXCO\<close> becomes \<open>B\<close> in the main part and \<open>EXA\<close> in a header.
\<close>

theorem header_rules_unsorted_example:
  "processDocx ''<w:t>EXCO</w:t>'' [(''word/header/h.xml'', ''<w:t>EXCO</w:t>'')]
     [\<lparr>original = ''CO'', replacement = ''A''\<rparr>, \<lparr>original = ''EXCO'', replacement = ''B''\<rparr>]
   = Inr (''<w:t>B</w:t>'', [(''word/header/h.xml'', ''<w:t>EXA</w:t>'')])"
  by code_simp

section \<open>Balance of the output\<close>

text \<open>
  Claim C9.  With the two overlapping matches of claim C1, the second splice uses
  the offsets of node 2 taken before the first splice shortened the markup, and
  overwrites the start of the last \<open></w:r>\<close>: the input is balanced, the output is
  not.
\<close>

theorem balance_lost_example:
  "balanced ''<w:r><w:t>a</w:t></w:r><w:r><w:t>b</w:t></w:r><w:r><w:t>xyz</w:t></w:r>''
   \<and> replaceInXML ''<w:r><w:t>a</w:t></w:r><w:r><w:t>b</w:t></w:r><w:r><w:t>xyz</w:t></w:r>''
         [\<lparr>original = ''xyz'', replacement = ''P''\<rparr>, \<lparr>original = ''bx'', replacement = ''Q''\<rparr>]
       = Inr ''<w:r><w:t>a</w:t></w:r><w:r><w:t>Q</w:t></w:r><w:r><w:t>P</w:t>:r>''
   \<and> \<not> balanced ''<w:r><w:t>a</w:t></w:r><w:r><w:t>Q</w:t></w:r><w:r><w:t>P</w:t>:r>''"
  by code_simp

section \<open>The residual pass\<close>

lemma startsWith_append: "startsWith s p \<Longrightarrow> \<exists>rest. s = p @ rest"
  by (induction s p rule: startsWith.induct) auto

lemma matchLeaf_Some:
  assumes "matchLeaf s = Some (openTag, c)"
  shows "\<exists>rest. s = openTag @ c @ ''</w:t>'' @ rest"
proof -
  from assms have sw: "startsWith s ''<w:t''"
    by (auto simp: matchLeaf_def split: if_splits)
  then obtain r where s: "s = ''<w:t'' @ r" using startsWith_append by blast
  then have r: "drop 4 s = r" by simp
  let ?gt = "\<lambda>c. c \<noteq> CHR ''>''" and ?lt = "\<lambda>c. c \<noteq> CHR ''<''"
  define attrs where "attrs = takeWhile ?gt r"
  from assms sw r obtain g r2 where d: "dropWhile ?gt r = g # r2"
    by (auto simp: matchLeaf_def Let_def split: list.splits)
  have g: "g = CHR ''>''" using hd_dropWhile[of ?gt r] d by auto
  from assms sw r d have t: "openTag = ''<w:t'' @ attrs @ ''>''"
    and c: "c = takeWhile ?lt r2"
    and e: "startsWith (dropWhile ?lt r2) ''</w:t>''"
    by (auto simp: matchLeaf_def Let_def attrs_def split: if_splits)
  from e obtain rest where rest: "dropWhile ?lt r2 = ''</w:t>'' @ rest"
    using startsWith_append by blast
  have "r2 = takeWhile ?lt r2 @ dropWhile ?lt r2" by simp
  then have r2: "r2 = c @ ''</w:t>'' @ rest" using c rest by simp
  have "r = takeWhile ?gt r @ dropWhile ?gt r" by simp
  then have "r = attrs @ ''>'' @ r2" using d g by (simp add: attrs_def)
  with r2 have "s = openTag @ c @ ''</w:t>'' @ rest" by (simp add: s t)
  then show ?thesis by blast
qed

lemma split_absent: "\<not> includes_str c orig \<Longrightarrow> join (split c orig) rep = c"
proof -
  assume a: "\<not> includes_str c orig"
  then have n: "indexOf c orig = None" by (simp add: includes_str_def)
  have "orig \<noteq> []"
  proof
    assume "orig = []"
    with n show False by (cases c) simp_all
  qed
  with n show ?thesis by (subst split.simps) simp
qed

lemma replaceLeaves_id:
  "\<forall>node \<in> set (scanLeaves b s). \<forall>openTag. f openTag (content node) ''</w:t>''
       = openTag @ content node @ ''</w:t>'' \<Longrightarrow>
   replaceLeaves f s = s"
proof (induction f s arbitrary: b rule: replaceLeaves.induct)
  case (1 f s)
  show ?case
  proof (cases "s = []")
    case True
    then show ?thesis by (subst replaceLeaves.simps) simp
  next
    case ne: False
    show ?thesis
    proof (cases "matchLeaf s")
      case None
      from "1.prems" have "\<forall>node \<in> set (scanLeaves (Suc b) (tl s)). \<forall>openTag.
          f openTag (content node) ''</w:t>'' = openTag @ content node @ ''</w:t>''"
        by (subst (asm) scanLeaves.simps) (simp add: ne None)
      from "1.IH"(1)[OF ne None this] ne None show ?thesis
        by (subst replaceLeaves.simps) simp
    next
      case (Some p)
      obtain openTag c where p: "p = (openTag, c)" by (cases p)
      let ?full = "openTag @ c @ ''</w:t>''"
      from Some p obtain rest where s: "s = ?full @ rest"
        using matchLeaf_Some by fastforce
      from "1.prems"
      have all: "\<forall>node \<in> set (\<lparr>fullMatch = ?full, content = c, startIndex = b,
                     endIndex = b + length ?full\<rparr>
                   # scanLeaves (b + length ?full) (drop (length ?full) s)). \<forall>openTag.
          f openTag (content node) ''</w:t>'' = openTag @ content node @ ''</w:t>''"
        by (subst (asm) scanLeaves.simps) (simp add: ne Some p Let_def)
      then have c: "f openTag c ''</w:t>'' = ?full"
        and r: "\<forall>node \<in> set (scanLeaves (b + length ?full) (drop (length ?full) s)).
                  \<forall>openTag. f openTag (content node) ''</w:t>''
                    = openTag @ content node @ ''</w:t>''"
        by simp_all
      from "1.IH"(2)[OF ne Some p[symmetric] r]
      have "replaceLeaves f (drop (length ?full) s) = drop (length ?full) s" .
      moreover have "drop (length ?full) s = rest" using s by simp
      ultimately have "replaceLeaves f s = ?full @ rest"
        using ne Some p c by (subst replaceLeaves.simps) simp
      with s show ?thesis by simp
    qed
  qed
qed

lemma residualRule_absent:
  assumes "\<forall>node \<in> set (scanLeaves 0 s). \<not> includes_str (content node) (original item)"
  shows "residualRule item s = s"
  unfolding residualRule_def
  by (rule replaceLeaves_id[of 0]) (use assms in \<open>simp add: split_absent\<close>)

lemma residualPass_absent:
  "\<forall>node \<in> set (scanLeaves 0 s). \<forall>item \<in> set rs.
      \<not> includes_str (content node) (original item) \<Longrightarrow>
   residualPass rs s = s"
proof (induction rs)
  case Nil
  then show ?case by simp
next
  case (Cons item rs)
  then have "residualRule item s = s"
    by (intro residualRule_absent) simp
  with Cons show ?case by simp
qed

text \<open>
  Claim C6, as the code has it.  When the first run is complete, that is when no
  leaf of its output contains the original of any rule, a second run of the
  residual pass returns that output unchanged.
\<close>

theorem residual_pass_idempotent_when_complete:
  "\<forall>node \<in> set (scanLeaves 0 (residualPass rs xml)). \<forall>item \<in> set rs.
      \<not> includes_str (content node) (original item) \<Longrightarrow>
   residualPass rs (residualPass rs xml) = residualPass rs xml"
  by (rule residualPass_absent)

theorem residual_pass_idempotent_when_complete_witness:
  "residualPass [\<lparr>original = ''a'', replacement = ''b''\<rparr>] ''<w:t>a</w:t>'' = ''<w:t>b</w:t>''
   \<and> map content (scanLeaves 0 ''<w:t>b</w:t>'') = [''b'']
   \<and> \<not> includes_str ''b'' ''a''
   \<and> residualPass [\<lparr>original = ''a'', replacement = ''b''\<rparr>]
        (residualPass [\<lparr>original = ''a'', replacement = ''b''\<rparr>] ''<w:t>a</w:t>'')
     = residualPass [\<lparr>original = ''a'', replacement = ''b''\<rparr>] ''<w:t>a</w:t>''"
proof -
  have r: "residualPass [\<lparr>original = ''a'', replacement = ''b''\<rparr>] ''<w:t>a</w:t>''
             = ''<w:t>b</w:t>''"
    by code_simp
  have l: "scanLeaves 0 ''<w:t>b</w:t>''
             = [\<lparr>fullMatch = ''<w:t>b</w:t>'', content = ''b'', startIndex = 0, endIndex = 12\<rparr>]"
    by code_simp
  have n: "\<not> includes_str ''b'' ''a''" by code_simp
  have "\<forall>node \<in> set (scanLeaves 0
            (residualPass [\<lparr>original = ''a'', replacement = ''b''\<rparr>] ''<w:t>a</w:t>'')).
          \<forall>item \<in> set [\<lparr>original = ''a'', replacement = ''b''\<rparr>].
            \<not> includes_str (content node) (original item)"
    using n unfolding r l by simp
  from residual_pass_idempotent_when_complete[OF this] r l n show ?thesis by simp
qed

text \<open>
  Claim C6 as stated fails: the rule \<open>a\<close> to \<open>aa\<close> turns the leaf \<open>a\<close> into \<open>aa\<close>, and a
  second run turns it into \<open>aaaa\<close>.
\<close>

theorem residual_pass_counterexample:
  "residualPass [\<lparr>original = ''a'', replacement = ''aa''\<rparr>]
     (residualPass [\<lparr>original = ''a'', replacement = ''aa''\<rparr>] ''<w:t>a</w:t>'')
   \<noteq> residualPass [\<lparr>original = ''a'', replacement = ''aa''\<rparr>] ''<w:t>a</w:t>''"
  by code_simp

section \<open>A rule whose original is empty\<close>

lemma indexOf_empty: "indexOf s [] = Some 0"
  by (cases s) simp_all

lemma firstOccurring_empty:
  "item \<in> set rs \<Longrightarrow> original item = [] \<Longrightarrow> \<exists>p. firstOccurring rs c = Some p"
  by (induction rs) (auto simp: indexOf_empty split: option.splits)

lemma window_one:
  "i < length textNodes \<Longrightarrow> window textNodes i (Suc 0) = [content (textNodes ! i)]"
  by (simp add: window_def Cons_nth_drop_Suc[symmetric])

lemma locate_one: "locate ms me [c] i 0 i i = (i, i)"
  by (simp add: Let_def)

lemma candidate_one:
  "i < length textNodes \<Longrightarrow>
   candidate textNodes i (Suc 0) item k = matchInFragment i (item, k)"
  by (simp only: candidate_def window_one locate_one prod.case Let_def)
     (simp add: window_def matchInFragment_def)

lemma tryRules_one:
  assumes "i < length textNodes" "i \<notin> processed st"
  shows "firstOccurring rs (content (textNodes ! i)) = Some p \<Longrightarrow>
         tryRules textNodes i (Suc 0) rs st
           = \<lparr>processed = insert i (processed st),
               matches = matches st @ [matchInFragment i p]\<rparr>"
proof (induction rs)
  case Nil
  then show ?case by simp
next
  case (Cons item rs)
  have r: "{i ..< nat (int i + 1)} = {i}" by auto
  show ?case
  proof (cases "indexOf (content (textNodes ! i)) (original item)")
    case None
    with Cons assms show ?thesis by (simp add: window_one)
  next
    case (Some k)
    with Cons.prems have "p = (item, k)" by simp
    with Some assms show ?thesis
      by (simp add: window_one candidate_one Let_def) (simp add: matchInFragment_def r)
  qed
qed

lemma spanLoop_one:
  assumes "i < length textNodes" "i \<notin> processed st"
    and "firstOccurring rs (content (textNodes ! i)) = Some p"
  shows "spanLoop textNodes rs i [1 ..< Suc (min 5 (length textNodes - i))] st
         = \<lparr>processed = insert i (processed st),
             matches = matches st @ [matchInFragment i p]\<rparr>"
proof -
  from assms(1) have "[1 ..< Suc (min 5 (length textNodes - i))]
                        = Suc 0 # [2 ..< Suc (min 5 (length textNodes - i))]"
    by (simp add: upt_rec)
  then show ?thesis
    by (simp only: spanLoop.simps tryRules_one[OF assms] Let_def) simp
qed

lemma nodeLoop_one:
  assumes "n = length textNodes" "item \<in> set rs" "original item = []"
  shows "k \<le> n \<Longrightarrow> processed st = {0 ..< n - k} \<Longrightarrow>
     map Some (matches (nodeLoop textNodes rs [n - k ..< n] st))
       = map Some (matches st) @
           map (\<lambda>i. map_option (matchInFragment i)
                       (firstOccurring rs (content (textNodes ! i)))) [n - k ..< n]"
proof (induction k arbitrary: st)
  case 0
  then show ?case by simp
next
  case (Suc k)
  let ?i = "n - Suc k"
  obtain p where p: "firstOccurring rs (content (textNodes ! ?i)) = Some p"
    using firstOccurring_empty[OF assms(2,3)] by blast
  let ?st = "\<lparr>processed = insert ?i (processed st),
               matches = matches st @ [matchInFragment ?i p]\<rparr>"
  from Suc.prems have i: "?i < length textNodes" "?i \<notin> processed st" and nk: "Suc ?i = n - k"
    using assms(1) by auto
  have upt: "[?i ..< n] = ?i # [n - k ..< n]"
    using Suc.prems nk by (simp add: upt_rec[of ?i n])
  have pr: "processed ?st = {0 ..< n - k}"
    using Suc.prems nk by auto
  from Suc.prems have "k \<le> n" by simp
  note rest = Suc.IH[OF this pr]
  have "nodeLoop textNodes rs [?i ..< n] st = nodeLoop textNodes rs [n - k ..< n] ?st"
    unfolding upt by (simp only: nodeLoop.simps i(2) if_False spanLoop_one[OF i p])
  with rest show ?case by (simp add: upt p)
qed

text \<open>
  Claim C4, as the code has it.  Nothing guards the empty original:
  \<open>combinedText.includes('')\<close> holds for every window and \<open>indexOf('')\<close> is 0.  When
  the rule list holds a rule whose original is empty, the window of one fragment
  always yields a match, so the matcher records exactly one match for every
  fragment, in document order and of span 1: the match of the first rule of the
  list whose original occurs in the fragment, at the offset of its first
  occurrence.  The rule with the empty original is therefore matched, at offset 0,
  in every fragment in which no rule before it occurs.
\<close>

theorem empty_original_matches_every_fragment:
  "item \<in> set rs \<Longrightarrow> original item = [] \<Longrightarrow>
   map Some (findMatches textNodes rs)
     = map (\<lambda>i. map_option (matchInFragment i)
                  (firstOccurring rs (content (textNodes ! i))))
         [0 ..< length textNodes]"
  using nodeLoop_one[of "length textNodes" textNodes item rs "length textNodes"
          "\<lparr>processed = {}, matches = []\<rparr>"]
  by (simp add: findMatches_def)

theorem empty_original_matches_every_fragment_witness:
  "map Some
     (findMatches (scanLeaves 0 ''<w:t>ab</w:t><w:t>cd</w:t>'')
        [\<lparr>original = ''cd'', replacement = ''Y''\<rparr>, \<lparr>original = [], replacement = ''X''\<rparr>])
   = [Some \<lparr>startNodeIndex = 0, actualSpan = 1, original_m = [], replacement_m = ''X'',
             offsetInFirstNode = 0\<rparr>,
      Some \<lparr>startNodeIndex = 1, actualSpan = 1, original_m = ''cd'', replacement_m = ''Y'',
             offsetInFirstNode = 0\<rparr>]"
proof -
  let ?rs = "[\<lparr>original = ''cd'', replacement = ''Y''\<rparr>, \<lparr>original = [], replacement = ''X''\<rparr>]"
  have s: "scanLeaves 0 ''<w:t>ab</w:t><w:t>cd</w:t>''
     = [\<lparr>fullMatch = ''<w:t>ab</w:t>'', content = ''ab'', startIndex = 0, endIndex = 13\<rparr>,
        \<lparr>fullMatch = ''<w:t>cd</w:t>'', content = ''cd'', startIndex = 13, endIndex = 26\<rparr>]"
    by code_simp
  have m: "\<lparr>original = [], replacement = ''X''\<rparr> \<in> set ?rs" by simp
  have f0: "firstOccurring ?rs ''ab'' = Some (\<lparr>original = [], replacement = ''X''\<rparr>, 0)"
    by code_simp
  have f1: "firstOccurring ?rs ''cd'' = Some (\<lparr>original = ''cd'', replacement = ''Y''\<rparr>, 0)"
    by code_simp
  have u: "[0 ..< 2] = [0, Suc 0]" by (simp add: upt_rec)
  from empty_original_matches_every_fragment[OF m, of "scanLeaves 0 ''<w:t>ab</w:t><w:t>cd</w:t>''"]
  show ?thesis
    unfolding s by (simp add: u f0 f1 matchInFragment_def del: firstOccurring.simps)
qed

text \<open>
  Claim C4 as stated fails: for the single leaf \<open>ab\<close> and the rule from the empty
  string to \<open>X\<close>, the matcher records a match, one pass turns the content into
  \<open>Xab\<close>, and the engine does not return the markup it was given.
\<close>

theorem empty_original_counterexample:
  "findMatches (scanLeaves 0 ''<w:t>ab</w:t>'') [\<lparr>original = [], replacement = ''X''\<rparr>]
     = [\<lparr>startNodeIndex = 0, actualSpan = 1, original_m = [], replacement_m = ''X'',
          offsetInFirstNode = 0\<rparr>]
   \<and> handleCrossTagReplacement ''<w:t>ab</w:t>'' [\<lparr>original = [], replacement = ''X''\<rparr>]
     = Inr ''<w:t>Xab</w:t>''
   \<and> replaceInXML ''<w:t>ab</w:t>'' [\<lparr>original = [], replacement = ''X''\<rparr>]
     \<noteq> Inr ''<w:t>ab</w:t>''"
  by code_simp

section \<open>Leaves at the end of a block\<close>

lemma startsWith_append_short:
  "length m \<le> length s \<Longrightarrow> startsWith (s @ t) m = startsWith s m"
  by (induction s m rule: startsWith.induct) simp_all

lemma startsWith_length: "startsWith s m \<Longrightarrow> length m \<le> length s"
  by (induction s m rule: startsWith.induct) simp_all

lemma startsWith_split: "startsWith s p \<Longrightarrow> \<exists>rest. s = p @ rest"
  by (induction s p rule: startsWith.induct) auto

lemma startsWith_prefix: "startsWith (p @ r) p"
  by (induction p) simp_all

lemma indexOf_append_left:
  "indexOf b m = Some k \<Longrightarrow> indexOf (b @ t) m = Some k"
proof (induction b arbitrary: k)
  case Nil
  then show ?case by (cases t) (simp_all split: if_splits)
next
  case (Cons c cs)
  show ?case
  proof (cases "startsWith (c # cs) m")
    case True
    then have "startsWith ((c # cs) @ t) m"
      using startsWith_append_short[OF startsWith_length[OF True], of t] by simp
    with True Cons.prems show ?thesis by simp
  next
    case False
    with Cons.prems obtain k' where k': "indexOf cs m = Some k'" "k = Suc k'" by auto
    from indexOf_bound[OF k'(1)] have "length m \<le> length (c # cs)" by simp
    from startsWith_append_short[OF this, of t] False
    have "\<not> startsWith ((c # cs) @ t) m" by simp
    with Cons.IH[OF k'(1)] k'(2) show ?thesis by simp
  qed
qed

lemma indexOf_occurs: "\<exists>k. indexOf (x @ m @ y) m = Some k"
proof (induction x)
  case Nil
  show ?case
  proof (cases "m @ y")
    case Nil
    then show ?thesis by simp
  next
    case (Cons c cs)
    with startsWith_prefix[of m y] show ?thesis by simp
  qed
next
  case (Cons c x)
  then show ?case by auto
qed

lemma matchLeaf_leafText:
  assumes "CHR ''>'' \<notin> set a" "CHR ''<'' \<notin> set c"
  shows "matchLeaf (leafText a c @ rest) = Some (''<w:t'' @ a @ ''>'', c)"
proof -
  have t1: "takeWhile (\<lambda>x. x \<noteq> CHR ''>'') (a @ CHR ''>'' # c @ ''</w:t>'' @ rest) = a"
    using assms(1) by (subst takeWhile_append2) auto
  have d1: "dropWhile (\<lambda>x. x \<noteq> CHR ''>'') (a @ CHR ''>'' # c @ ''</w:t>'' @ rest)
              = CHR ''>'' # c @ ''</w:t>'' @ rest"
    using assms(1) by (subst dropWhile_append2) auto
  have t2: "takeWhile (\<lambda>x. x \<noteq> CHR ''<'') (c @ ''</w:t>'' @ rest) = c"
    using assms(2) by (subst takeWhile_append2) auto
  have d2: "dropWhile (\<lambda>x. x \<noteq> CHR ''<'') (c @ ''</w:t>'' @ rest) = ''</w:t>'' @ rest"
    using assms(2) by (subst dropWhile_append2) auto
  have sw: "startsWith (leafText a c @ rest) ''<w:t''" by (simp add: leafText_def)
  have dr: "drop 4 (leafText a c @ rest) = a @ CHR ''>'' # c @ ''</w:t>'' @ rest"
    by (simp add: leafText_def)
  show ?thesis
    unfolding matchLeaf_def
    by (simp only: sw if_True dr Let_def d1 list.case t1 t2 d2 startsWith_prefix)
qed

lemma matchLeaf_shape:
  assumes "matchLeaf s = Some (openTag, c)"
  shows "\<exists>a rest. CHR ''>'' \<notin> set a \<and> CHR ''<'' \<notin> set c \<and> openTag = ''<w:t'' @ a @ ''>''
           \<and> s = leafText a c @ rest"
proof -
  from assms have sw: "startsWith s ''<w:t''"
    by (auto simp: matchLeaf_def split: if_splits)
  then obtain r where s: "s = ''<w:t'' @ r"
    using startsWith_split by blast
  then have r: "drop 4 s = r" by simp
  let ?gt = "\<lambda>c. c \<noteq> CHR ''>''" and ?lt = "\<lambda>c. c \<noteq> CHR ''<''"
  define a where "a = takeWhile ?gt r"
  from assms sw r obtain g r2 where d: "dropWhile ?gt r = g # r2"
    by (auto simp: matchLeaf_def Let_def split: list.splits)
  have g: "g = CHR ''>''" using hd_dropWhile[of ?gt r] d by auto
  from assms sw r d have t: "openTag = ''<w:t'' @ a @ ''>''"
    and c: "c = takeWhile ?lt r2"
    and e: "startsWith (dropWhile ?lt r2) ''</w:t>''"
    by (auto simp: matchLeaf_def Let_def a_def split: if_splits)
  from e obtain rest where rest: "dropWhile ?lt r2 = ''</w:t>'' @ rest"
    using startsWith_split by blast
  have "r2 = takeWhile ?lt r2 @ dropWhile ?lt r2" by simp
  then have r2: "r2 = c @ ''</w:t>'' @ rest" using c rest by simp
  have "r = takeWhile ?gt r @ dropWhile ?gt r" by simp
  then have "r = a @ ''>'' @ r2" using d g by (simp add: a_def)
  with r2 have "s = leafText a c @ rest" by (simp add: s leafText_def)
  moreover have "CHR ''>'' \<notin> set a" unfolding a_def by (auto dest: set_takeWhileD)
  moreover have "CHR ''<'' \<notin> set c" unfolding c by (auto dest: set_takeWhileD)
  ultimately show ?thesis using t by blast
qed

text \<open>
  A leaf found at the head of a text that holds the leaf \<open>leafText aM cM\<close> after
  \<open>pre\<close> ends before that leaf starts, or ends where it ends.
\<close>

lemma first_split_unique:
  "x \<notin> set xs \<Longrightarrow> x \<notin> set ys \<Longrightarrow> xs @ x # xs' = ys @ x # ys' \<Longrightarrow> xs = ys \<and> xs' = ys'"
proof (induction xs arbitrary: ys)
  case Nil
  then show ?case by (cases ys) auto
next
  case (Cons a xs)
  then show ?case by (cases ys) auto
qed

lemma leaf_overlap:
  assumes eq: "pre @ leafText aM cM @ t' = leafText a c @ rest"
    and aM: "CHR ''>'' \<notin> set aM" and cM: "CHR ''<'' \<notin> set cM"
    and a: "CHR ''>'' \<notin> set a" and c: "CHR ''<'' \<notin> set c"
  shows "length (leafText a c) \<le> length pre
         \<or> length (leafText a c) = length pre + length (leafText aM cM)"
proof (cases "CHR ''>'' \<in> set pre")
  case False
  let ?h = "''<w:t'' @ a" and ?hM = "pre @ ''<w:t'' @ aM"
  have nh: "CHR ''>'' \<notin> set ?h" using a by simp
  have nhM: "CHR ''>'' \<notin> set ?hM" using aM False by simp
  from eq have e1: "?hM @ CHR ''>'' # (cM @ ''</w:t>'' @ t') = ?h @ CHR ''>'' # (c @ ''</w:t>'' @ rest)"
    by (simp add: leafText_def)
  note u1 = first_split_unique[OF nhM nh e1]
  from u1 have h: "?hM = ?h" and r: "cM @ ''</w:t>'' @ t' = c @ ''</w:t>'' @ rest"
    by (rule conjunct1, rule conjunct2)
  from r have e2: "cM @ CHR ''<'' # (''/w:t>'' @ t') = c @ CHR ''<'' # (''/w:t>'' @ rest)" by simp
  from first_split_unique[OF cM c e2] have "cM = c" by (rule conjunct1)
  moreover from h have "length ?hM = length ?h" by (rule arg_cong)
  ultimately have "length (leafText a c) = length pre + length (leafText aM cM)"
    by (simp add: leafText_def)
  then show ?thesis ..
next
  case True
  then obtain p1 p2 where pre: "pre = p1 @ CHR ''>'' # p2" and np1: "CHR ''>'' \<notin> set p1"
    by (auto dest: split_list_first)
  let ?h = "''<w:t'' @ a"
  have nh: "CHR ''>'' \<notin> set ?h" using a by simp
  from eq have e1: "p1 @ CHR ''>'' # (p2 @ leafText aM cM @ t') = ?h @ CHR ''>'' # (c @ ''</w:t>'' @ rest)"
    by (simp add: leafText_def pre)
  note u1 = first_split_unique[OF np1 nh e1]
  from u1 have h: "p1 = ?h" and r: "p2 @ leafText aM cM @ t' = c @ ''</w:t>'' @ rest"
    by (rule conjunct1, rule conjunct2)
  show ?thesis
  proof (cases "CHR ''<'' \<in> set p2")
    case False
    from r have e2: "p2 @ CHR ''<'' # (''w:t'' @ aM @ ''>'' @ cM @ ''</w:t>'' @ t')
                   = c @ CHR ''<'' # (''/w:t>'' @ rest)"
      by (simp add: leafText_def)
    from first_split_unique[OF False c e2]
    have "''w:t'' @ aM @ ''>'' @ cM @ ''</w:t>'' @ t' = ''/w:t>'' @ rest"
      by (rule conjunct2)
    then show ?thesis by simp
  next
    case True
    then obtain q1 q2 where p2: "p2 = q1 @ CHR ''<'' # q2" and nq1: "CHR ''<'' \<notin> set q1"
      by (auto dest: split_list_first)
    from r have e2: "q1 @ CHR ''<'' # (q2 @ leafText aM cM @ t') = c @ CHR ''<'' # (''/w:t>'' @ rest)"
      by (simp add: p2)
    note u2 = first_split_unique[OF nq1 c e2]
    from u2 have qc: "q1 = c" and q: "q2 @ leafText aM cM @ t' = ''/w:t>'' @ rest"
      by (rule conjunct1, rule conjunct2)
    have "5 \<le> length q2"
    proof (rule ccontr)
      assume "\<not> 5 \<le> length q2"
      then have l: "length q2 < 5" by simp
      have lt: "(q2 @ leafText aM cM @ t') ! length q2 = CHR ''<''"
        by (simp add: leafText_def nth_append)
      from l have "length q2 = 0 \<or> length q2 = 1 \<or> length q2 = 2 \<or> length q2 = 3
                   \<or> length q2 = 4" by arith
      then have "(''/w:t>'' @ rest) ! length q2 \<noteq> CHR ''<''"
        by (elim disjE) simp_all
      with lt q show False by simp
    qed
    moreover from h have "length p1 = 4 + length a" by simp
    ultimately have "length (leafText a c) \<le> length pre"
      by (simp add: leafText_def pre p2 qc[symmetric])
    then show ?thesis ..
  qed
qed

lemma leafText_length: "11 \<le> length (leafText a c)"
  by (simp add: leafText_def)

lemma matchLeaf_append:
  "matchLeaf s = Some p \<Longrightarrow> matchLeaf (s @ t) = Some p"
proof -
  assume a: "matchLeaf s = Some p"
  obtain openTag c where p: "p = (openTag, c)" by (cases p)
  from matchLeaf_shape[OF a[unfolded p]] obtain a' rest where
    s: "CHR ''>'' \<notin> set a'" "CHR ''<'' \<notin> set c" "openTag = ''<w:t'' @ a' @ ''>''"
       "s = leafText a' c @ rest" by blast
  from matchLeaf_leafText[OF s(1,2), of "rest @ t"] s(3,4) p show ?thesis by simp
qed

lemma matchLeaf_short: "length t < 11 \<Longrightarrow> matchLeaf t = None"
proof (rule ccontr)
  assume l: "length t < 11" and "matchLeaf t \<noteq> None"
  then obtain openTag c where "matchLeaf t = Some (openTag, c)" by auto
  from matchLeaf_shape[OF this] obtain a rest where "t = leafText a c @ rest" by blast
  with leafText_length[of a c] l show False by simp
qed

text \<open>With a leaf at the end of \<open>s\<close>, text added after \<open>s\<close> changes neither the leaf
  found at its head nor where the scan goes next.\<close>

lemma matchLeaf_before_leaf:
  assumes s: "s = pre @ leafText aM cM"
    and aM: "CHR ''>'' \<notin> set aM" and cM: "CHR ''<'' \<notin> set cM"
  shows "matchLeaf (s @ t) = matchLeaf s"
    and "matchLeaf s = None \<Longrightarrow> \<exists>pre'. tl s = pre' @ leafText aM cM"
    and "matchLeaf s = Some (openTag, c) \<Longrightarrow>
           length (openTag @ c @ ''</w:t>'') \<le> length s
           \<and> (drop (length (openTag @ c @ ''</w:t>'')) s = []
              \<or> (\<exists>pre'. drop (length (openTag @ c @ ''</w:t>'')) s = pre' @ leafText aM cM))"
proof -
  show "matchLeaf (s @ t) = matchLeaf s"
  proof (cases "matchLeaf (s @ t)")
    case None
    then show ?thesis using matchLeaf_append[of s _ t] by (cases "matchLeaf s") auto
  next
    case (Some p)
    obtain tg c' where p: "p = (tg, c')" by (cases p)
    from matchLeaf_shape[OF Some[unfolded p]] obtain a rest where
      l: "CHR ''>'' \<notin> set a" "CHR ''<'' \<notin> set c'" "tg = ''<w:t'' @ a @ ''>''"
         "s @ t = leafText a c' @ rest" by blast
    from l(4) s have "pre @ leafText aM cM @ t = leafText a c' @ rest" by simp
    from leaf_overlap[OF this aM cM l(1,2)] s
    have "length (leafText a c') \<le> length s" by auto
    with l(4) have "s = leafText a c' @ drop (length (leafText a c')) s"
      by (metis append_eq_conv_conj append_take_drop_id take_append diff_is_0_eq take_0
            append_Nil2)
    from matchLeaf_leafText[OF l(1,2), of "drop (length (leafText a c')) s"] this
    have "matchLeaf s = Some (tg, c')" using l(3) by simp
    with Some p show ?thesis by simp
  qed
next
  assume n: "matchLeaf s = None"
  have "pre \<noteq> []"
  proof
    assume "pre = []"
    with s matchLeaf_leafText[OF aM cM, of "[]"] n show False by simp
  qed
  then obtain x pre' where "pre = x # pre'" by (cases pre) auto
  with s show "\<exists>pre'. tl s = pre' @ leafText aM cM" by simp
next
  assume m: "matchLeaf s = Some (openTag, c)"
  from matchLeaf_shape[OF m] obtain a rest where
    l: "CHR ''>'' \<notin> set a" "CHR ''<'' \<notin> set c" "openTag = ''<w:t'' @ a @ ''>''"
       "s = leafText a c @ rest" by blast
  have f: "openTag @ c @ ''</w:t>'' = leafText a c" by (simp add: l(3) leafText_def)
  from l(4) s have e: "pre @ leafText aM cM @ [] = leafText a c @ rest" by simp
  from l(4) have le: "length (leafText a c) \<le> length s" by (metis length_append le_add1)
  from leaf_overlap[OF e aM cM l(1,2)]
  have "drop (length (leafText a c)) s = []
        \<or> (\<exists>pre'. drop (length (leafText a c)) s = pre' @ leafText aM cM)"
  proof
    assume "length (leafText a c) \<le> length pre"
    then have "drop (length (leafText a c)) s = drop (length (leafText a c)) pre @ leafText aM cM"
      by (simp add: s)
    then show ?thesis by blast
  next
    assume "length (leafText a c) = length pre + length (leafText aM cM)"
    then have "drop (length (leafText a c)) s = []" by (simp add: s)
    then show ?thesis ..
  qed
  with le show "length (openTag @ c @ ''</w:t>'') \<le> length s
           \<and> (drop (length (openTag @ c @ ''</w:t>'')) s = []
              \<or> (\<exists>pre'. drop (length (openTag @ c @ ''</w:t>'')) s = pre' @ leafText aM cM))"
    unfolding f by simp
qed

lemma rewriteBlock_short: "length t < 11 \<Longrightarrow> rewriteBlock f n t = Inr t"
proof (induction t)
  case Nil
  then show ?case by (subst rewriteBlock.simps) simp
next
  case (Cons x t)
  then have "rewriteBlock f n t = Inr t" by simp
  with matchLeaf_short[OF Cons.prems] show ?case
    by (subst rewriteBlock.simps) simp
qed

text \<open>Rewriting a block that ends with a leaf, and the same block with up to ten
  more characters after it, when the two callbacks agree on the leaves of the
  block.\<close>

lemma rewriteBlock_extend:
  assumes aM: "CHR ''>'' \<notin> set aM" and cM: "CHR ''<'' \<notin> set cM" and t: "length t < 11"
  shows "(\<And>n m c x y. b = x @ m @ y \<Longrightarrow> f n m c = g n m c) \<Longrightarrow>
         b = x @ s \<Longrightarrow> s = [] \<or> (\<exists>pre. s = pre @ leafText aM cM) \<Longrightarrow>
         rewriteBlock f n (s @ t)
           = (case rewriteBlock g n s of Inl e \<Rightarrow> Inl e | Inr r \<Rightarrow> Inr (r @ t))"
proof (induction g n s arbitrary: x rule: rewriteBlock.induct)
  case (1 g n s)
  show ?case
  proof (cases "s = []")
    case True
    then show ?thesis
      using rewriteBlock_short[OF t, of f n] by (subst (2) rewriteBlock.simps) simp
  next
    case ne: False
    with "1.prems"(3) obtain pre where s: "s = pre @ leafText aM cM" by blast
    note ml = matchLeaf_before_leaf[OF s aM cM]
    from ne have net: "s @ t \<noteq> []" by simp
    show ?thesis
    proof (cases "matchLeaf s")
      case None
      from ml(2)[OF None] have ok: "tl s = [] \<or> (\<exists>pre. tl s = pre @ leafText aM cM)" by blast
      from "1.prems"(2) ne have bx: "b = (x @ [hd s]) @ tl s" by simp
      from "1.IH"(1)[OF ne None "1.prems"(1) bx ok]
      have ih: "rewriteBlock f n (tl s @ t)
                  = (case rewriteBlock g n (tl s) of Inl e \<Rightarrow> Inl e | Inr r \<Rightarrow> Inr (r @ t))" .
      have l: "rewriteBlock f n (s @ t)
                 = (case rewriteBlock f n (tl s @ t) of Inl e \<Rightarrow> Inl e
                    | Inr rest \<Rightarrow> Inr (hd s # rest))"
        using ne None ml(1)[of t]
        by (subst rewriteBlock.simps) (auto simp: hd_append split: sum.splits)
      have r: "rewriteBlock g n s
                 = (case rewriteBlock g n (tl s) of Inl e \<Rightarrow> Inl e
                    | Inr rest \<Rightarrow> Inr (hd s # rest))"
        using ne None by (subst rewriteBlock.simps) simp
      show ?thesis using ih unfolding l r by (simp split: sum.splits)
    next
      case (Some p)
      obtain openTag c where p: "p = (openTag, c)" by (cases p)
      let ?full = "openTag @ c @ ''</w:t>''"
      from ml(3)[OF Some[unfolded p]]
      have le: "length ?full \<le> length s"
        and ok: "drop (length ?full) s = []
                 \<or> (\<exists>pre'. drop (length ?full) s = pre' @ leafText aM cM)" by blast+
      from matchLeaf_shape[OF Some[unfolded p]] obtain a rest where
        sh: "openTag = ''<w:t'' @ a @ ''>''" "s = leafText a c @ rest" by blast
      then have sf: "s = ?full @ rest" by (simp add: leafText_def)
      then have dr: "drop (length ?full) s = rest" by simp
      from "1.prems"(2) sf have "b = x @ ?full @ rest" by simp
      from "1.prems"(1)[OF this] have ag: "f n ?full c = g n ?full c" .
      from le have dt: "drop (length ?full) (s @ t) = drop (length ?full) s @ t" by simp
      have l: "rewriteBlock f n (s @ t)
                 = (case g n ?full c of Inl e \<Rightarrow> Inl e
                    | Inr (out, n') \<Rightarrow>
                        (case rewriteBlock f n' (drop (length ?full) s @ t) of
                           Inl e \<Rightarrow> Inl e | Inr rest \<Rightarrow> Inr (out @ rest)))"
        using net Some p ml(1)[of t] ag dt
        by (subst rewriteBlock.simps) (auto split: sum.splits)
      have r: "rewriteBlock g n s
                 = (case g n ?full c of Inl e \<Rightarrow> Inl e
                    | Inr (out, n') \<Rightarrow>
                        (case rewriteBlock g n' (drop (length ?full) s) of
                           Inl e \<Rightarrow> Inl e | Inr rest \<Rightarrow> Inr (out @ rest)))"
        using ne Some p by (subst rewriteBlock.simps) simp
      show ?thesis
      proof (cases "g n ?full c")
        case (Inl e)
        then show ?thesis unfolding l r by simp
      next
        case (Inr q)
        obtain out n' where q: "q = (out, n')" by (cases q)
        from "1.prems"(2) sf have bx: "b = (x @ ?full) @ drop (length ?full) s" by simp
        from "1.IH"(2)[OF ne Some p[symmetric] Inr[unfolded q] refl "1.prems"(1) bx ok]
        have ih: "rewriteBlock f n' (drop (length ?full) s @ t)
                    = (case rewriteBlock g n' (drop (length ?full) s) of
                         Inl e \<Rightarrow> Inl e | Inr r \<Rightarrow> Inr (r @ t))" .
        show ?thesis using ih unfolding l r by (simp add: Inr q split: sum.splits)
      qed
    qed
  qed
qed

lemma spliceLeaf_agree:
  assumes "b = x @ m @ y"
  shows "spliceLeaf (b @ t) bs firstT lastT tSpan off rep n m c
           = spliceLeaf b bs firstT lastT tSpan off rep n m c"
proof -
  from indexOf_occurs[of x m y] assms obtain k where k: "indexOf b m = Some k" by auto
  from indexOf_append_left[OF k, of t] k show ?thesis
    by (simp add: spliceLeaf_def)
qed

text \<open>A region that ends six characters after a leaf gives the same result as the
  region that ends with the leaf.\<close>

lemma spliceRegion_extend:
  assumes xml: "xml = preX @ leafText aM cM @ restX"
    and aM: "CHR ''>'' \<notin> set aM" and cM: "CHR ''<'' \<notin> set cM"
    and bs: "bs \<le> length preX"
    and e: "e = length preX + length (leafText aM cM)"
  shows "spliceRegion xml firstT lastT tSpan off rep bs (e + 6)
           = spliceRegion xml firstT lastT tSpan off rep bs e"
proof -
  let ?M = "leafText aM cM"
  let ?B = "drop bs preX @ ?M" and ?t = "take 6 restX"
  let ?P = "substring xml 0 bs"
  let ?f = "spliceLeaf (?B @ ?t) bs firstT lastT tSpan off rep"
  let ?g = "spliceLeaf ?B bs firstT lastT tSpan off rep"
  from bs e have be: "bs \<le> e" by simp
  have dx: "drop bs xml = ?B @ restX" using bs by (simp add: xml)
  have lB: "length ?B = e - bs" using bs e by simp
  have "substring xml bs e = take (e - bs) (drop bs xml)"
    using be by (simp add: substring_def max_def min_def)
  also have "\<dots> = take (length ?B) (?B @ restX)" by (simp only: dx lB)
  also have "\<dots> = ?B" by simp
  finally have b1: "substring xml bs e = ?B" .
  have l6: "e + 6 - bs = length ?B + 6" using be lB by simp
  have "substring xml bs (e + 6) = take (e + 6 - bs) (drop bs xml)"
    using be by (simp add: substring_def max_def min_def)
  also have "\<dots> = take (length ?B + 6) (?B @ restX)" by (simp only: dx l6)
  also have "\<dots> = ?B @ ?t" by simp
  finally have b2: "substring xml bs (e + 6) = ?B @ ?t" .
  have d1: "drop e xml = restX" by (simp add: xml e)
  have d2: "drop (e + 6) xml = drop 6 restX" by (simp add: xml e)
  have tr: "?t @ drop 6 restX = restX" by simp
  have lt: "length ?t < 11" by simp
  have rb: "rewriteBlock ?f 0 (?B @ ?t)
              = (case rewriteBlock ?g 0 ?B of Inl err \<Rightarrow> Inl err | Inr r \<Rightarrow> Inr (r @ ?t))"
  proof (rule rewriteBlock_extend[OF aM cM lt, where b = ?B and x = "[]"])
    fix n m c x y
    assume "?B = x @ m @ y"
    then show "?f n m c = ?g n m c" by (rule spliceLeaf_agree)
  next
    show "?B = [] @ ?B" by simp
  next
    show "?B = [] \<or> (\<exists>pre. ?B = pre @ ?M)" by blast
  qed
  show ?thesis
  proof (cases "rewriteBlock ?g 0 ?B")
    case (Inl err)
    with rb show ?thesis by (simp add: spliceRegion_def b1 b2)
  next
    case (Inr r)
    have fin: "?P @ (r @ ?t) @ drop 6 restX = ?P @ r @ restX"
      using tr by (metis append_assoc)
    have L: "spliceRegion xml firstT lastT tSpan off rep bs (e + 6)
               = thenE (mkString (r @ ?t)) (\<lambda>nb. mkString (?P @ nb @ drop 6 restX))"
      unfolding spliceRegion_def Let_def b2 d2 rb Inr by simp
    have R: "spliceRegion xml firstT lastT tSpan off rep bs e
               = thenE (mkString r) (\<lambda>nb. mkString (?P @ nb @ restX))"
      unfolding spliceRegion_def Let_def b1 d1 Inr by simp
    show ?thesis
    proof (cases "int (length (r @ ?t)) \<le> maxStringLength")
      case True
      then have m1: "mkString (r @ ?t) = Inr (r @ ?t)" by (simp add: mkString_def)
      from True have m2: "mkString r = Inr r" by (simp add: mkString_def)
      show ?thesis unfolding L R m1 m2 thenE_Inr fin ..
    next
      case False
      then have m1: "mkString (r @ ?t) = Inl RangeError" by (simp add: mkString_def)
      have "length (r @ ?t) \<le> length (?P @ r @ restX)"
        by (simp add: min_def)
      with False have "\<not> int (length (?P @ r @ restX)) \<le> maxStringLength" by linarith
      then have m3: "mkString (?P @ r @ restX) = Inl RangeError" by (simp add: mkString_def)
      from mkString_cases[of r] show ?thesis
        unfolding L R m1 by (auto simp: m3)
    qed
  qed
qed

lemma scanLeaves_leaf:
  "node \<in> set (scanLeaves b s) \<Longrightarrow>
   \<exists>pre a rest. s = pre @ leafText a (content node) @ rest
      \<and> CHR ''>'' \<notin> set a \<and> CHR ''<'' \<notin> set (content node)
      \<and> startIndex node = b + length pre
      \<and> endIndex node = startIndex node + length (leafText a (content node))"
proof (induction b s rule: scanLeaves.induct)
  case (1 b s)
  show ?case
  proof (cases "s = []")
    case True
    with "1.prems" show ?thesis by (subst (asm) scanLeaves.simps) simp
  next
    case ne: False
    show ?thesis
    proof (cases "matchLeaf s")
      case None
      with ne "1.prems" have "node \<in> set (scanLeaves (Suc b) (tl s))"
        by (subst (asm) scanLeaves.simps) simp
      from "1.IH"(1)[OF ne None this] obtain pre a rest where
        h: "tl s = pre @ leafText a (content node) @ rest" "CHR ''>'' \<notin> set a"
           "CHR ''<'' \<notin> set (content node)" "startIndex node = Suc b + length pre"
           "endIndex node = startIndex node + length (leafText a (content node))" by blast
      from ne h(1) have "s = (hd s # pre) @ leafText a (content node) @ rest"
        by (cases s) simp_all
      moreover from h(4) have "startIndex node = b + length (hd s # pre)" by simp
      ultimately show ?thesis using h(2,3,5) by blast
    next
      case (Some p)
      obtain openTag c where p: "p = (openTag, c)" by (cases p)
      let ?full = "openTag @ c @ ''</w:t>''"
      from matchLeaf_shape[OF Some[unfolded p]] obtain a rest where
        sh: "CHR ''>'' \<notin> set a" "CHR ''<'' \<notin> set c" "openTag = ''<w:t'' @ a @ ''>''"
            "s = leafText a c @ rest" by blast
      then have f: "?full = leafText a c" by (simp add: leafText_def)
      from ne Some p "1.prems"
      have "node = \<lparr>fullMatch = ?full, content = c, startIndex = b,
                     endIndex = b + length ?full\<rparr>
            \<or> node \<in> set (scanLeaves (b + length ?full) (drop (length ?full) s))"
        by (subst (asm) scanLeaves.simps) (simp add: Let_def)
      then show ?thesis
      proof
        assume n: "node = \<lparr>fullMatch = ?full, content = c, startIndex = b,
                     endIndex = b + length ?full\<rparr>"
        have "s = [] @ leafText a (content node) @ rest" using sh(4) n by simp
        moreover have "startIndex node = b + length ([]::string)" using n by simp
        moreover have "endIndex node = startIndex node + length (leafText a (content node))"
          using n f by simp
        moreover have "CHR ''<'' \<notin> set (content node)" using n sh(2) by simp
        ultimately show ?thesis using sh(1) by blast
      next
        assume "node \<in> set (scanLeaves (b + length ?full) (drop (length ?full) s))"
        from "1.IH"(2)[OF ne Some p[symmetric] refl this] obtain pre a' rest' where
          h: "drop (length ?full) s = pre @ leafText a' (content node) @ rest'"
             "CHR ''>'' \<notin> set a'" "CHR ''<'' \<notin> set (content node)"
             "startIndex node = b + length ?full + length pre"
             "endIndex node = startIndex node + length (leafText a' (content node))" by blast
        from sh(4) f have "s = ?full @ drop (length ?full) s" by simp
        with h(1) have "s = (?full @ pre) @ leafText a' (content node) @ rest'" by simp
        moreover from h(4) have "startIndex node = b + length (?full @ pre)" by simp
        ultimately show ?thesis using h(2,3,5) by blast
      qed
    qed
  qed
qed

lemma scanLeaves_sorted:
  "sorted_wrt (\<lambda>x y. startIndex x \<le> startIndex y) (scanLeaves b s)"
proof (induction b s rule: scanLeaves.induct)
  case (1 b s)
  show ?case
  proof (cases "s = []")
    case True
    then show ?thesis by (subst scanLeaves.simps) simp
  next
    case ne: False
    show ?thesis
    proof (cases "matchLeaf s")
      case None
      from "1.IH"(1)[OF ne None] ne None show ?thesis
        by (subst scanLeaves.simps) simp
    next
      case (Some p)
      obtain openTag c where p: "p = (openTag, c)" by (cases p)
      let ?full = "openTag @ c @ ''</w:t>''"
      have "\<forall>y \<in> set (scanLeaves (b + length ?full) (drop (length ?full) s)).
              b \<le> startIndex y"
        using scanLeaves_leaf by fastforce
      with "1.IH"(2)[OF ne Some p[symmetric] refl] ne Some p show ?thesis
        by (subst scanLeaves.simps) (simp add: Let_def)
    qed
  qed
qed

lemma lastIndexOf_bound: "lastIndexOf s pat = Some k \<Longrightarrow> k + length pat \<le> length s"
proof (induction s arbitrary: k)
  case Nil
  then show ?case by (simp split: if_splits)
next
  case (Cons c cs)
  show ?case
  proof (cases "lastIndexOf cs pat")
    case None
    with Cons.prems have "startsWith (c # cs) pat" "k = 0" by (auto split: if_splits)
    with startsWith_length[of "c # cs" pat] show ?thesis by simp
  next
    case (Some j)
    with Cons.prems have "k = Suc j" by simp
    with Cons.IH[OF Some] show ?thesis by simp
  qed
qed

section \<open>The region of a match when a block marker is missing\<close>

lemma blockBounds_fst:
  "fst (blockBounds xml firstT lastT) = fst (ownBounds xml firstT lastT)"
  by (simp add: blockBounds_def ownBounds_def Let_def)

lemma blockBounds_snd:
  "snd (blockBounds xml firstT lastT)
     = (case indexOf (drop (endIndex lastT) xml) ''</w:r>'' of
          None \<Rightarrow> endIndex lastT + 6
        | Some k \<Rightarrow> endIndex lastT + k + 6)"
  by (simp add: blockBounds_def Let_def split: option.splits)

lemma ownBounds_fst_le: "fst (ownBounds xml firstT lastT) \<le> startIndex firstT"
proof (cases "lastIndexOf (substring xml 0 (startIndex firstT)) ''<w:r>''")
  case None
  then show ?thesis by (simp add: ownBounds_def)
next
  case (Some k)
  from lastIndexOf_bound[OF Some] have "k \<le> length (substring xml 0 (startIndex firstT))"
    by simp
  also have "\<dots> \<le> startIndex firstT" by (simp add: substring_def)
  finally show ?thesis using Some by (simp add: ownBounds_def)
qed

lemma spliceRegion_own:
  assumes xml: "xml = preX @ leafText a c @ restX"
    and a: "CHR ''>'' \<notin> set a" and c: "CHR ''<'' \<notin> set c"
    and s: "startIndex firstT \<le> length preX"
    and e: "endIndex lastT = length preX + length (leafText a c)"
  shows "spliceRegion xml firstT lastT tSpan off rep
           (fst (blockBounds xml firstT lastT)) (snd (blockBounds xml firstT lastT))
         = spliceRegion xml firstT lastT tSpan off rep
             (fst (ownBounds xml firstT lastT)) (snd (ownBounds xml firstT lastT))"
proof (cases "indexOf (drop (endIndex lastT) xml) ''</w:r>''")
  case (Some k)
  then show ?thesis
    by (simp add: blockBounds_fst blockBounds_snd) (simp add: ownBounds_def)
next
  case None
  from ownBounds_fst_le[of xml firstT lastT] s
  have bs: "fst (ownBounds xml firstT lastT) \<le> length preX" by simp
  from None have b: "snd (blockBounds xml firstT lastT) = endIndex lastT + 6"
    and o: "snd (ownBounds xml firstT lastT) = endIndex lastT"
    by (simp_all add: blockBounds_snd ownBounds_def)
  show ?thesis
    unfolding blockBounds_fst b o
    by (rule spliceRegion_extend[OF xml a c bs e])
qed



lemma scanLeaves_single:
  "scanLeaves b ''<w:t>c</w:t>''
     = [\<lparr>fullMatch = ''<w:t>c</w:t>'', content = ''c'', startIndex = b, endIndex = b + 12\<rparr>]"
proof -
  have e: "\<And>k. scanLeaves k [] = []" by (subst scanLeaves.simps) simp
  have m: "matchLeaf ''<w:t>c</w:t>'' = Some (''<w:t>'', ''c'')" by code_simp
  show ?thesis
    by (subst scanLeaves.simps) (simp add: m e)
qed

lemma scanLeaves_grown:
  "scanLeaves 0 (doubling n @ ''<w:t>c</w:t>'')
     = [\<lparr>fullMatch = doubling n, content = replicate n CHR ''a'' @ ''b'', startIndex = 0,
          endIndex = n + 12\<rparr>,
        \<lparr>fullMatch = ''<w:t>c</w:t>'', content = ''c'', startIndex = n + 12,
          endIndex = n + 24\<rparr>]"
proof -
  have l: "length (doubling n) = n + 12" by (simp add: doubling_def)
  have ne: "doubling n @ ''<w:t>c</w:t>'' \<noteq> []" by (simp add: doubling_def)
  have f: "''<w:t>'' @ (replicate n CHR ''a'' @ ''b'') @ ''</w:t>'' = doubling n"
    by (simp add: doubling_def)
  have d: "drop (n + 12) (doubling n @ ''<w:t>c</w:t>'') = ''<w:t>c</w:t>''" by (simp add: l)
  have m: "matchLeaf (doubling n @ ''<w:t>c</w:t>'')
             = Some (''<w:t>'', replicate n CHR ''a'' @ ''b'')"
    by (rule matchLeaf_append[OF matchLeaf_doubling])
  have s: "scanLeaves (n + 12) ''<w:t>c</w:t>''
     = [\<lparr>fullMatch = ''<w:t>c</w:t>'', content = ''c'', startIndex = n + 12,
          endIndex = n + 24\<rparr>]"
    using scanLeaves_single[of "n + 12"] by simp
  show ?thesis
    by (subst scanLeaves.simps)
       (simp only: ne if_False m option.case prod.case Let_def f l d add_0 s)
qed

lemma replace_doubling:
  assumes "0 < n"
  shows "replace_str (doubling n) (replicate n CHR ''a'' @ ''b'') (replicate n CHR ''a'' @ ''$&'')
           = doubling (2 * n)"
proof -
  let ?c = "replicate n CHR ''a'' @ ''b''"
  have t: "take 5 (doubling n) = ''<w:t>''" by (simp add: doubling_def)
  have "doubling n = (''<w:t>'' @ ?c) @ ''</w:t>''" by (simp add: doubling_def)
  moreover have "5 + length ?c = length (''<w:t>'' @ ?c)" by simp
  ultimately have d: "drop (5 + length ?c) (doubling n) = ''</w:t>''"
    by (metis append_eq_conv_conj)
  have "replace_str (doubling n) ?c (replicate n CHR ''a'' @ ''$&'')
          = ''<w:t>'' @ (replicate n CHR ''a'' @ ?c) @ ''</w:t>''"
    by (simp only: replace_str_def indexOf_in_doubling[OF assms] option.case
          getSubstitution_doubling t d)
  also have "\<dots> = doubling (2 * n)"
    by (simp add: doubling_def mult_2 replicate_add)
  finally show ?thesis .
qed

lemma indexOf_grown_content: "indexOf (replicate n CHR ''a'' @ ''bc'') ''bc'' = Some n"
  by (induction n) simp_all

lemma indexOf_grown_first: "indexOf (replicate n CHR ''a'' @ ''b'') ''bc'' = None"
  by (induction n) simp_all

lemma spliceLeaf_grown:
  assumes n: "0 < n" and fit: "int (n + 2) \<le> maxStringLength"
    and big: "\<not> int (2 * n + 12) \<le> maxStringLength"
  shows "spliceLeaf (doubling n @ ''<w:t>c</w:t>'') 0
           \<lparr>fullMatch = doubling n, content = replicate n CHR ''a'' @ ''b'', startIndex = 0,
              endIndex = n + 12\<rparr>
           \<lparr>fullMatch = ''<w:t>c</w:t>'', content = ''c'', startIndex = n + 12,
              endIndex = n + 24\<rparr>
           2 (int n) ''$&'' 0 (doubling n) (replicate n CHR ''a'' @ ''b'')
         = Inl RangeError"
proof -
  have i: "indexOf (doubling n @ ''<w:t>c</w:t>'') (doubling n) = Some 0"
    using startsWith_self[of "doubling n" "''<w:t>c</w:t>''"]
    by (cases "doubling n @ ''<w:t>c</w:t>''") (simp_all add: doubling_def)
  have l: "length (doubling (2 * n)) = 2 * n + 12" by (simp add: doubling_def)
  have p: "substring (replicate n CHR ''a'' @ ''b'') 0 n = replicate n CHR ''a''"
    by (simp add: substring_def)
  have m1: "mkString (replicate n CHR ''a'' @ ''$&'') = Inr (replicate n CHR ''a'' @ ''$&'')"
    using fit by (simp add: mkString_def)
  have m2: "mkString (doubling (2 * n)) = Inl RangeError"
    using big by (simp add: mkString_def l)
  show ?thesis
    by (simp add: spliceLeaf_def i Let_def p m1 replace_doubling[OF n] m2)
qed

lemma blockBounds_grown:
  "blockBounds (doubling n @ ''<w:t>c</w:t>'')
     \<lparr>fullMatch = doubling n, content = replicate n CHR ''a'' @ ''b'', startIndex = 0,
        endIndex = n + 12\<rparr>
     \<lparr>fullMatch = ''<w:t>c</w:t>'', content = ''c'', startIndex = n + 12,
        endIndex = n + 24\<rparr>
   = (0, n + 30)"
proof -
  let ?xml = "doubling n @ ''<w:t>c</w:t>''"
  let ?f = "\<lparr>fullMatch = doubling n, content = replicate n CHR ''a'' @ ''b'', startIndex = 0,
              endIndex = n + 12\<rparr>"
  let ?l = "\<lparr>fullMatch = ''<w:t>c</w:t>'', content = ''c'', startIndex = n + 12,
              endIndex = n + 24\<rparr>"
  have l: "length (doubling n) = n + 12" by (simp add: doubling_def)
  have d: "drop (n + 24) ?xml = []" by (simp add: l)
  have a: "fst (blockBounds ?xml ?f ?l) = 0"
    by (simp add: blockBounds_fst ownBounds_def substring_def)
  have b: "snd (blockBounds ?xml ?f ?l) = n + 30"
    by (simp only: blockBounds_snd textNode.select_convs d) simp
  from a b show ?thesis by (simp add: prod_eq_iff)
qed

lemma splice_grown:
  assumes n: "0 < n" and fit: "int (n + 2) \<le> maxStringLength"
    and big: "\<not> int (2 * n + 12) \<le> maxStringLength"
  shows "performCrossTagReplace (doubling n @ ''<w:t>c</w:t>'')
           [\<lparr>fullMatch = doubling n, content = replicate n CHR ''a'' @ ''b'', startIndex = 0,
              endIndex = n + 12\<rparr>,
            \<lparr>fullMatch = ''<w:t>c</w:t>'', content = ''c'', startIndex = n + 12,
              endIndex = n + 24\<rparr>]
           0 2 (int n) ''bc'' ''$&''
         = Inl RangeError"
proof -
  let ?xml = "doubling n @ ''<w:t>c</w:t>''"
  let ?f = "\<lparr>fullMatch = doubling n, content = replicate n CHR ''a'' @ ''b'', startIndex = 0,
              endIndex = n + 12\<rparr>"
  let ?l = "\<lparr>fullMatch = ''<w:t>c</w:t>'', content = ''c'', startIndex = n + 12,
              endIndex = n + 24\<rparr>"
  have len: "length (doubling n) = n + 12" by (simp add: doubling_def)
  have ne: "?xml \<noteq> []" by (simp add: doubling_def)
  have f: "''<w:t>'' @ (replicate n CHR ''a'' @ ''b'') @ ''</w:t>'' = doubling n"
    by (simp add: doubling_def)
  from fit have fit1: "int (n + 1) \<le> maxStringLength" by simp
  have fc: "fullContentLoop [?f, ?l] 0 2 [] = Inr (replicate n CHR ''a'' @ ''bc'')"
    using fit fit1 by (simp add: eval_nat_numeral mkString_def)
  have rs: "replace_str (replicate n CHR ''a'' @ ''bc'') ''bc'' ''$&'' = replicate n CHR ''a'' @ ''bc''"
    by (simp add: replace_str_def indexOf_grown_content)
  have nf: "mkString (replace_str (replicate n CHR ''a'' @ ''bc'') ''bc'' ''$&'')
              = Inr (replicate n CHR ''a'' @ ''bc'')"
    using fit by (simp add: rs mkString_def)
  have sx: "substring ?xml 0 (n + 30) = ?xml" by (simp add: substring_def len)
  have m: "matchLeaf ?xml = Some (''<w:t>'', replicate n CHR ''a'' @ ''b'')"
    by (rule matchLeaf_append[OF matchLeaf_doubling])
  have rb: "rewriteBlock (spliceLeaf ?xml 0 ?f ?l 2 (int n) ''$&'') 0 ?xml = Inl RangeError"
    by (subst rewriteBlock.simps)
       (simp only: ne if_False m option.case prod.case f spliceLeaf_grown[OF n fit big]
          sum.case)
  have sr: "spliceRegion ?xml ?f ?l 2 (int n) ''$&'' 0 (n + 30) = Inl RangeError"
    by (simp add: spliceRegion_def Let_def sx rb thenE_def)
  show ?thesis
    by (simp add: performCrossTagReplace_def Let_def fc nf blockBounds_grown sr)
qed

lemma findMatches_grown:
  "findMatches
     [\<lparr>fullMatch = doubling n, content = replicate n CHR ''a'' @ ''b'', startIndex = 0,
        endIndex = n + 12\<rparr>,
      \<lparr>fullMatch = ''<w:t>c</w:t>'', content = ''c'', startIndex = n + 12,
        endIndex = n + 24\<rparr>]
     [\<lparr>original = ''bc'', replacement = ''$&''\<rparr>]
   = [\<lparr>startNodeIndex = 0, actualSpan = 2, original_m = ''bc'', replacement_m = ''$&'',
        offsetInFirstNode = int n\<rparr>]"
  by (simp add: findMatches_def window_def candidate_def indexOf_grown_content
        indexOf_grown_first Let_def)

lemma handle_grown:
  assumes n: "0 < n" and fit: "int (n + 2) \<le> maxStringLength"
    and big: "\<not> int (2 * n + 12) \<le> maxStringLength"
  shows "handleCrossTagReplacement (doubling n @ ''<w:t>c</w:t>'')
           [\<lparr>original = ''bc'', replacement = ''$&''\<rparr>] = Inl RangeError"
  by (simp add: handleCrossTagReplacement_def scanLeaves_grown findMatches_grown
        splice_grown[OF n fit big])


section \<open>Further properties of the engine\<close>

lemma spanLoop_Nil: "i \<notin> processed st \<Longrightarrow> spanLoop textNodes [] i spans st = st"
  by (induction spans) (simp_all add: Let_def)

lemma nodeLoop_Nil: "nodeLoop textNodes [] is st = st"
  by (induction "is") (simp_all add: spanLoop_Nil)

lemma handle_no_rules: "handleCrossTagReplacement xml [] = Inr xml"
  by (simp add: handleCrossTagReplacement_def findMatches_def nodeLoop_Nil)

text \<open>An empty rule list is a no-op: the engine returns the markup it was given,
  after a single pass.\<close>

theorem replaceInXML_no_rules:
  "replaceInXML xml [] = Inr xml \<and> crossTagPasses [] xml 0 = (Inr xml, 1)"
  using crossTagPasses_step[OF handle_no_rules, of xml 0]
  by (simp add: replaceInXML_def)

text \<open>A pass never reads a node that does not exist: neither a pass nor the driver
  ends with a \<open>TypeError\<close>.\<close>

theorem no_missing_node:
  "handleCrossTagReplacement xml rs \<noteq> Inl TypeError
   \<and> fst (crossTagPasses rs xml 0) \<noteq> Inl TypeError"
proof -
  obtain res n where "crossTagPasses rs xml 0 = (res, n)"
    "res = Inl RangeError \<or> (\<exists>r. res = Inr r \<and> 0 < n)"
    using crossTagPasses_done[of rs xml 0] by blast
  then show ?thesis
    using handleCrossTagReplacement_no_TypeError[of xml rs] by auto
qed

text \<open>
  The nodes of a pass are leaves of the markup the pass started from: each node ends
  where a text leaf with the node's content ends, and no earlier node starts after
  that leaf does.
\<close>

theorem scanned_nodes_are_leaves:
  assumes "i \<le> j" and "j < length (scanLeaves 0 xml)"
  shows "\<exists>preX a restX.
           xml = preX @ leafText a (content (scanLeaves 0 xml ! j)) @ restX
           \<and> CHR ''>'' \<notin> set a \<and> CHR ''<'' \<notin> set (content (scanLeaves 0 xml ! j))
           \<and> startIndex (scanLeaves 0 xml ! i) \<le> length preX
           \<and> endIndex (scanLeaves 0 xml ! j)
               = length preX + length (leafText a (content (scanLeaves 0 xml ! j)))"
proof -
  let ?f = "scanLeaves 0 xml ! i" and ?l = "scanLeaves 0 xml ! j"
  from assms(2) have "?l \<in> set (scanLeaves 0 xml)" by simp
  from scanLeaves_leaf[OF this] obtain preX a restX where
    l: "xml = preX @ leafText a (content ?l) @ restX" "CHR ''>'' \<notin> set a"
       "CHR ''<'' \<notin> set (content ?l)" "startIndex ?l = length preX"
       "endIndex ?l = startIndex ?l + length (leafText a (content ?l))" by auto
  have ord: "startIndex ?f \<le> startIndex ?l"
  proof (cases "i = j")
    case True
    then show ?thesis by simp
  next
    case False
    with assms(1) have "i < j" by simp
    with scanLeaves_sorted[of 0 xml] assms(2) show ?thesis
      by (simp add: sorted_wrt_iff_nth_less)
  qed
  from ord l(4) have s: "startIndex ?f \<le> length preX" by simp
  from l(4,5) have e: "endIndex ?l = length preX + length (leafText a (content ?l))" by simp
  from l(1,2,3) s e show ?thesis by blast
qed

theorem scanned_nodes_are_leaves_witness:
  "length (scanLeaves 0 ''<w:t>ab</w:t><w:t>cd</w:t>'') = 2
   \<and> (\<exists>preX a restX.
         ''<w:t>ab</w:t><w:t>cd</w:t>''
           = preX @ leafText a (content (scanLeaves 0 ''<w:t>ab</w:t><w:t>cd</w:t>'' ! 1)) @ restX
         \<and> CHR ''>'' \<notin> set a
         \<and> CHR ''<'' \<notin> set (content (scanLeaves 0 ''<w:t>ab</w:t><w:t>cd</w:t>'' ! 1))
         \<and> startIndex (scanLeaves 0 ''<w:t>ab</w:t><w:t>cd</w:t>'' ! 0) \<le> length preX
         \<and> endIndex (scanLeaves 0 ''<w:t>ab</w:t><w:t>cd</w:t>'' ! 1)
             = length preX
               + length (leafText a (content (scanLeaves 0 ''<w:t>ab</w:t><w:t>cd</w:t>'' ! 1))))"
proof -
  have l: "length (scanLeaves 0 ''<w:t>ab</w:t><w:t>cd</w:t>'') = 2" by code_simp
  have i: "(0::nat) \<le> 1" by simp
  from l have j: "1 < length (scanLeaves 0 ''<w:t>ab</w:t><w:t>cd</w:t>'')" by simp
  from l scanned_nodes_are_leaves[OF i j] show ?thesis by (intro conjI)
qed

text \<open>
  The examples of the specification, with one ASCII character for each character of
  the originals: a whole leaf replaced, a replacement after a prefix that is kept,
  a match split over two leaves, and the longer rule applied first to the main part.
\<close>

theorem specification_examples:
  "replaceInXML ''<w:r><w:t>EXCOALTD</w:t></w:r>''
     [\<lparr>original = ''EXCOALTD'', replacement = ''[BUYER]''\<rparr>]
     = Inr ''<w:r><w:t>[BUYER]</w:t></w:r>''
   \<and> replaceInXML ''<w:r><w:t>LXR:ZS</w:t></w:r>''
     [\<lparr>original = ''ZS'', replacement = ''[NAME]''\<rparr>]
     = Inr ''<w:r><w:t>LXR:[NAME]</w:t></w:r>''
   \<and> replaceInXML ''<w:r><w:t>EXC</w:t></w:r><w:r><w:t>OALTD</w:t></w:r>''
     [\<lparr>original = ''EXCOALTD'', replacement = ''X''\<rparr>]
     = Inr ''<w:r><w:t>X</w:t></w:r><w:r><w:t></w:t></w:r>''
   \<and> replaceInXML ''<w:r><w:t>EXCO</w:t></w:r>''
     (sortedRedactions
        [\<lparr>original = ''CO'', replacement = ''A''\<rparr>, \<lparr>original = ''EXCO'', replacement = ''B''\<rparr>])
     = Inr ''<w:r><w:t>B</w:t></w:r>''"
  by code_simp

end
